theory Spec2Isabelle
  imports Complex_Main "HOL-Library.AList"
begin

section \<open>Facility search service: data model\<close>

text \<open>
  The development follows \<^verbatim>\<open>FacilityService\<close> (the service with the id, name-token and
  amenity indexes) and the types of \<^verbatim>\<open>types/facility.ts\<close>.

  JavaScript strings are modelled as \<^typ>\<open>string\<close> and read as ASCII text: case mapping
  changes the letters A to Z only, and white space is the ASCII white space matched by
  \<^verbatim>\<open>\s\<close> and removed by \<^verbatim>\<open>trim\<close>.
\<close>

record Location =
  latitude :: real
  longitude :: real

record Facility =
  id' :: string
  name :: string
  address :: string
  location :: Location
  facilities :: "string list"

record FacilitySearchResult =
  id' :: string
  name :: string
  address :: string


section \<open>String operations of the host language\<close>

definition isSpace :: "char \<Rightarrow> bool" where
  "isSpace c = (c \<in> set [CHR 0x09, CHR 0x0A, CHR 0x0B, CHR 0x0C, CHR 0x0D, CHR 0x20])"

definition toLowerChar :: "char \<Rightarrow> char" where
  "toLowerChar c =
     (case map_of (zip ''ABCDEFGHIJKLMNOPQRSTUVWXYZ'' ''abcdefghijklmnopqrstuvwxyz'') c of
        Some l \<Rightarrow> l
      | None \<Rightarrow> c)"

definition toLowerCase :: "string \<Rightarrow> string" where
  "toLowerCase s = map toLowerChar s"

definition trim :: "string \<Rightarrow> string" where
  "trim s = rev (dropWhile isSpace (rev (dropWhile isSpace s)))"

fun startsWith :: "string \<Rightarrow> string \<Rightarrow> bool" where
  "startsWith s [] = True"
| "startsWith [] (c # p) = False"
| "startsWith (d # s) (c # p) = (d = c \<and> startsWith s p)"

text \<open>
  \<^verbatim>\<open>s.split(/\s+/)\<close>: the pieces between maximal runs of white space. A run at the start
  or at the end of the string leaves an empty piece there, and the empty string has the
  single piece \<^verbatim>\<open>""\<close>.
\<close>

function splitWs :: "string \<Rightarrow> string list" where
  "splitWs [] = [[]]"
| "splitWs (c # cs) =
     (if isSpace c then [] # splitWs (dropWhile isSpace cs)
      else (case splitWs cs of
              [] \<Rightarrow> [[c]]
            | w # ws \<Rightarrow> (c # w) # ws))"
  by pat_completeness auto
termination
  by (relation "measure length") (auto simp: length_dropWhile_le less_Suc_eq_le)


section \<open>Sets and maps of the host language\<close>

text \<open>
  A \<^verbatim>\<open>Set<string>\<close> is an object: it is held in a store and named by a reference. Its
  data is the ECMAScript \<^verbatim>\<open>[[SetData]]\<close> list, in insertion order, in which
  \<^verbatim>\<open>delete\<close> replaces an entry by the empty marker (here \<^term>\<open>None\<close>) so that an
  iteration in progress keeps its position.
\<close>

type_synonym ref = nat
type_synonym SetData = "string option list"

definition setValues :: "SetData \<Rightarrow> string list" where
  "setValues S = concat (map (\<lambda>e. case e of None \<Rightarrow> [] | Some x \<Rightarrow> [x]) S)"

definition setHas :: "SetData \<Rightarrow> string \<Rightarrow> bool" where
  "setHas S x = (Some x \<in> set S)"

definition setSize :: "SetData \<Rightarrow> nat" where
  "setSize S = length (setValues S)"

definition setAdd :: "SetData \<Rightarrow> string \<Rightarrow> SetData" where
  "setAdd S x = (if setHas S x then S else S @ [Some x])"

definition setDelete :: "SetData \<Rightarrow> string \<Rightarrow> SetData" where
  "setDelete S x = map (\<lambda>e. if e = Some x then None else e) S"

text \<open>
  A \<^verbatim>\<open>Map\<close> is an association list in insertion order; \<^verbatim>\<open>set\<close> on a key that is
  present replaces the value in place, and appends otherwise.
\<close>

definition mapGet :: "('k \<times> 'v) list \<Rightarrow> 'k \<Rightarrow> 'v option" where
  "mapGet m k = map_of m k"

definition mapHas :: "('k \<times> 'v) list \<Rightarrow> 'k \<Rightarrow> bool" where
  "mapHas m k = (map_of m k \<noteq> None)"

definition mapSet :: "('k \<times> 'v) list \<Rightarrow> 'k \<Rightarrow> 'v \<Rightarrow> ('k \<times> 'v) list" where
  "mapSet m k v = AList.update k v m"


section \<open>The service state\<close>

text \<open>
  The four private fields of the class, with the store of the \<^verbatim>\<open>Set\<close> objects that the
  two token indexes refer to and the next free reference.
\<close>

record FacilityService =
  facilities :: "Facility list"
  facilityIndex :: "(string \<times> Facility) list"
  nameIndex :: "(string \<times> ref) list"
  amenityIndex :: "(string \<times> ref) list"
  sets :: "ref \<Rightarrow> SetData"
  nextRef :: ref

text \<open>\<^verbatim>\<open>new Set(...)\<close>: a fresh object with the given data.\<close>

definition newSet :: "SetData \<Rightarrow> FacilityService \<Rightarrow> ref \<times> FacilityService" where
  "newSet init s =
     (nextRef s, s\<lparr>sets := (sets s)(nextRef s := init), nextRef := Suc (nextRef s)\<rparr>)"

text \<open>
  \<^verbatim>\<open>src.forEach(id => dst.add(id))\<close>. The values of \<open>src\<close> are read once: nothing is deleted
  during the walk, and when \<open>dst\<close> is \<open>src\<close> itself every \<^verbatim>\<open>add\<close> finds its value present.
\<close>

definition addAll :: "ref \<Rightarrow> ref \<Rightarrow> FacilityService \<Rightarrow> FacilityService" where
  "addAll src dst s =
     fold (\<lambda>x t. t\<lparr>sets := (sets t)(dst := setAdd (sets t dst) x)\<rparr>) (setValues (sets s src)) s"


section \<open>Building the indexes\<close>

definition tokenizeName :: "string \<Rightarrow> string list" where
  "tokenizeName n =
     (let normalized = toLowerCase n;
          words = filter (\<lambda>w. length w > 0) (splitWs normalized)
      in words)"

text \<open>
  The body of the two inner loops of \<^verbatim>\<open>buildIndexes\<close>. The last branch stands for the
  non-null assertion on \<^verbatim>\<open>get(token)!\<close>; it is never taken, since the key has just been
  set when it was absent.
\<close>

definition addToNameIndex :: "string \<Rightarrow> string \<Rightarrow> FacilityService \<Rightarrow> FacilityService" where
  "addToNameIndex fid token s =
     (let s1 = (if \<not> mapHas (nameIndex s) token
                then (case newSet [] s of
                        (r, s') \<Rightarrow> s'\<lparr>nameIndex := mapSet (nameIndex s') token r\<rparr>)
                else s)
      in case mapGet (nameIndex s1) token of
           Some r \<Rightarrow> s1\<lparr>sets := (sets s1)(r := setAdd (sets s1 r) fid)\<rparr>
         | None \<Rightarrow> s1)"

definition addToAmenityIndex :: "string \<Rightarrow> string \<Rightarrow> FacilityService \<Rightarrow> FacilityService" where
  "addToAmenityIndex fid normalizedAmenity s =
     (let s1 = (if \<not> mapHas (amenityIndex s) normalizedAmenity
                then (case newSet [] s of
                        (r, s') \<Rightarrow> s'\<lparr>amenityIndex := mapSet (amenityIndex s') normalizedAmenity r\<rparr>)
                else s)
      in case mapGet (amenityIndex s1) normalizedAmenity of
           Some r \<Rightarrow> s1\<lparr>sets := (sets s1)(r := setAdd (sets s1 r) fid)\<rparr>
         | None \<Rightarrow> s1)"

definition indexFacility :: "Facility \<Rightarrow> FacilityService \<Rightarrow> FacilityService" where
  "indexFacility facility s =
     (let s1 = s\<lparr>facilityIndex := mapSet (facilityIndex s) (Facility.id' facility) facility\<rparr>;
          s2 = fold (addToNameIndex (Facility.id' facility))
                 (tokenizeName (Facility.name facility)) s1
      in fold (\<lambda>amenity. addToAmenityIndex (Facility.id' facility) (toLowerCase amenity))
           (Facility.facilities facility) s2)"

definition buildIndexes :: "FacilityService \<Rightarrow> FacilityService" where
  "buildIndexes s = fold indexFacility (FacilityService.facilities s) s"

text \<open>The constructor; the imported \<^verbatim>\<open>facilities.json\<close> is its argument.\<close>

definition newFacilityService :: "Facility list \<Rightarrow> FacilityService" where
  "newFacilityService facilitiesData =
     buildIndexes
       \<lparr>facilities = facilitiesData, facilityIndex = [], nameIndex = [], amenityIndex = [],
        sets = (\<lambda>r. []), nextRef = 0\<rparr>"


section \<open>Queries\<close>

text \<open>The loop that turns the matching ids into result projections.\<close>

fun toResults :: "(string \<times> Facility) list \<Rightarrow> string list \<Rightarrow> FacilitySearchResult list" where
  "toResults fi [] = []"
| "toResults fi (x # xs) =
     (case mapGet fi x of
        None \<Rightarrow> toResults fi xs
      | Some facility \<Rightarrow>
          \<lparr>FacilitySearchResult.id' = Facility.id' facility,
           FacilitySearchResult.name = Facility.name facility,
           FacilitySearchResult.address = Facility.address facility\<rparr> # toResults fi xs)"

subsection \<open>searchByName\<close>

text \<open>
  The comparator handed to \<^verbatim>\<open>sort\<close>. \<^verbatim>\<open>String.prototype.localeCompare\<close> depends on the
  collation of the host; it is the parameter \<open>lc\<close>.
\<close>

definition rankCompare ::
  "(string \<Rightarrow> string \<Rightarrow> int) \<Rightarrow> string \<Rightarrow> FacilitySearchResult \<Rightarrow> FacilitySearchResult \<Rightarrow> int" where
  "rankCompare lc normalizedQuery a b =
     (let aLower = toLowerCase (FacilitySearchResult.name a);
          bLower = toLowerCase (FacilitySearchResult.name b);
          queryLower = normalizedQuery
      in if aLower = queryLower then - 1
         else if bLower = queryLower then 1
         else (let aStarts = startsWith aLower queryLower;
                   bStarts = startsWith bLower queryLower
               in if aStarts \<and> \<not> bStarts then - 1
                  else if \<not> aStarts \<and> bStarts then 1
                  else lc (FacilitySearchResult.name a) (FacilitySearchResult.name b)))"

text \<open>
  \<^verbatim>\<open>Array.prototype.sort\<close> with a comparator. When the comparator is a consistent comparator
  for the elements, ECMAScript fixes the result as the stable sorted arrangement, and this
  is what the stable insertion sort below returns: an element is placed after every element
  that the comparator does not put behind it. When the comparator is not consistent,
  ECMAScript leaves the order to the engine and fixes only that the result holds the same
  elements; the definition then returns one such arrangement, and no statement of this
  theory relies on the order it has in that case.
\<close>

fun insertBy :: "('a \<Rightarrow> 'a \<Rightarrow> int) \<Rightarrow> 'a \<Rightarrow> 'a list \<Rightarrow> 'a list" where
  "insertBy cmp x [] = [x]"
| "insertBy cmp x (y # ys) = (if cmp y x \<le> 0 then y # insertBy cmp x ys else x # y # ys)"

definition sortBy :: "('a \<Rightarrow> 'a \<Rightarrow> int) \<Rightarrow> 'a list \<Rightarrow> 'a list" where
  "sortBy cmp xs = fold (insertBy cmp) xs []"

text \<open>The body of the loop over the query tokens (lines 78 to 93).\<close>

definition matchToken :: "ref \<Rightarrow> string \<Rightarrow> FacilityService \<Rightarrow> FacilityService" where
  "matchToken matchingIds queryToken s =
     (let s1 = (case mapGet (nameIndex s) queryToken of
                  Some exactMatch \<Rightarrow> addAll exactMatch matchingIds s
                | None \<Rightarrow> s)
      in fold (\<lambda>(indexedToken, facilityIds) t.
                 if indexedToken \<noteq> queryToken \<and> startsWith indexedToken queryToken
                 then addAll facilityIds matchingIds t
                 else t)
           (nameIndex s1) s1)"

definition searchByName ::
  "(string \<Rightarrow> string \<Rightarrow> int) \<Rightarrow> FacilityService \<Rightarrow> string
     \<Rightarrow> FacilitySearchResult list \<times> FacilityService" where
  "searchByName lc s query =
     (if query = [] \<or> length (trim query) = 0 then ([], s)
      else
        let normalizedQuery = trim (toLowerCase query);
            queryTokens = filter (\<lambda>t. length t > 0) (splitWs normalizedQuery)
        in case newSet [] s of
             (matchingIds, s1) \<Rightarrow>
               let s2 = fold (matchToken matchingIds) queryTokens s1;
                   results = toResults (facilityIndex s2) (setValues (sets s2 matchingIds))
               in (sortBy (rankCompare lc normalizedQuery) results, s2))"

subsection \<open>getById\<close>

definition getById :: "FacilityService \<Rightarrow> string \<Rightarrow> Facility option" where
  "getById s x = (if x = [] then None else mapGet (facilityIndex s) x)"

subsection \<open>filterByAmenities\<close>

text \<open>
  The loop \<^verbatim>\<open>for (const id of matchingIds) if (!amenityIds.has(id)) matchingIds.delete(id)\<close>
  (lines 174 to 178). The iterator holds a position in the data of the set it walks and
  reads the entry there at each step, so the store is read again after every deletion.
\<close>

function retainLoop :: "ref \<Rightarrow> ref \<Rightarrow> nat \<Rightarrow> (ref \<Rightarrow> SetData) \<Rightarrow> (ref \<Rightarrow> SetData)" where
  "retainLoop matchingIds amenityIds index h =
     (if index < length (h matchingIds) then
        (case h matchingIds ! index of
           None \<Rightarrow> retainLoop matchingIds amenityIds (Suc index) h
         | Some x \<Rightarrow>
             if \<not> setHas (h amenityIds) x
             then retainLoop matchingIds amenityIds (Suc index)
                    (h(matchingIds := setDelete (h matchingIds) x))
             else retainLoop matchingIds amenityIds (Suc index) h)
      else h)"
  by pat_completeness auto
termination
  by (relation "measure (\<lambda>(m, a, i, h). length (h m) - i)") (auto simp: setDelete_def)

declare retainLoop.simps [simp del]

text \<open>
  The loop over the second and later amenities (lines 166 to 183); \<^term>\<open>False\<close> is the
  early \<^verbatim>\<open>return []\<close>.
\<close>

fun intersectRest :: "ref \<Rightarrow> string list \<Rightarrow> FacilityService \<Rightarrow> bool \<times> FacilityService" where
  "intersectRest matchingIds [] s = (True, s)"
| "intersectRest matchingIds (a # as) s =
     (case mapGet (amenityIndex s) a of
        None \<Rightarrow> (False, s)
      | Some amenityIds \<Rightarrow>
          if setSize (sets s amenityIds) = 0 then (False, s)
          else (let s' = s\<lparr>sets := retainLoop matchingIds amenityIds 0 (sets s)\<rparr>
                in if setSize (sets s' matchingIds) = 0 then (False, s')
                   else intersectRest matchingIds as s'))"

text \<open>
  The case distinction on the lower-cased labels is the guard on the empty array: the head
  is \<^verbatim>\<open>normalizedAmenities[0]\<close> and the tail is what the loop from index 1 walks.
  \<^verbatim>\<open>new Set(candidateIds)\<close> adds the values of the posting set, in their order, to a new set.
\<close>

definition filterByAmenities ::
  "FacilityService \<Rightarrow> string list \<Rightarrow> FacilitySearchResult list \<times> FacilityService" where
  "filterByAmenities s amenities =
     (case map toLowerCase amenities of
        [] \<Rightarrow> ([], s)
      | firstAmenity # rest \<Rightarrow>
          (case mapGet (amenityIndex s) firstAmenity of
             None \<Rightarrow> ([], s)
           | Some candidateIds \<Rightarrow>
               if setSize (sets s candidateIds) = 0 then ([], s)
               else (case newSet (fold (\<lambda>x S. setAdd S x) (setValues (sets s candidateIds)) []) s of
                       (matchingIds, s1) \<Rightarrow>
                         (case intersectRest matchingIds rest s1 of
                            (False, s2) \<Rightarrow> ([], s2)
                          | (True, s2) \<Rightarrow>
                              (toResults (facilityIndex s2) (setValues (sets s2 matchingIds)), s2)))))"

subsection \<open>getCount\<close>

definition getCount :: "FacilityService \<Rightarrow> nat" where
  "getCount s = length (FacilityService.facilities s)"


section \<open>Reading the state\<close>

text \<open>
  The identifiers that an index holds for a key; the set objects that the two token indexes
  refer to; and the condition that these objects are allocated and pairwise different.
\<close>

definition postings :: "(string \<times> ref) list \<Rightarrow> (ref \<Rightarrow> SetData) \<Rightarrow> string \<Rightarrow> string set" where
  "postings idx h k = (case map_of idx k of None \<Rightarrow> {} | Some r \<Rightarrow> set (setValues (h r)))"

definition indexSets :: "FacilityService \<Rightarrow> ref set" where
  "indexSets s = snd ` set (nameIndex s) \<union> snd ` set (amenityIndex s)"

definition refsOk :: "FacilityService \<Rightarrow> bool" where
  "refsOk s =
     (distinct (map snd (nameIndex s) @ map snd (amenityIndex s))
      \<and> (\<forall>r \<in> snd ` set (nameIndex s) \<union> snd ` set (amenityIndex s). r < nextRef s))"

text \<open>
  The relation between the state before a query and the state after it in which the record
  sequence, the three indexes and the data of the set objects of the two token indexes are
  the same.
\<close>

definition preserved :: "FacilityService \<Rightarrow> FacilityService \<Rightarrow> bool" where
  "preserved s t =
     (FacilityService.facilities t = FacilityService.facilities s
      \<and> facilityIndex t = facilityIndex s
      \<and> nameIndex t = nameIndex s
      \<and> amenityIndex t = amenityIndex s
      \<and> (\<forall>r \<in> indexSets s. sets t r = sets s r))"

text \<open>Two states that differ at most in the data of the set object \<open>m\<close>.\<close>

definition sameBut :: "ref \<Rightarrow> FacilityService \<Rightarrow> FacilityService \<Rightarrow> bool" where
  "sameBut m s t =
     (FacilityService.facilities t = FacilityService.facilities s
      \<and> facilityIndex t = facilityIndex s
      \<and> nameIndex t = nameIndex s
      \<and> amenityIndex t = amenityIndex s
      \<and> nextRef t = nextRef s
      \<and> (\<forall>r. r \<noteq> m \<longrightarrow> sets t r = sets s r))"

text \<open>
  What the loop of lines 174 to 178 leaves of the data \<open>S\<close> of a set when the other set has
  the data \<open>A\<close>: the entries stay where they are, and an entry that \<open>A\<close> does not have is
  replaced by the empty marker.
\<close>

definition keepIn :: "SetData \<Rightarrow> SetData \<Rightarrow> SetData" where
  "keepIn A S = map (\<lambda>e. case e of None \<Rightarrow> None | Some x \<Rightarrow> if setHas A x then Some x else None) S"

text \<open>
  The data that the loop of lines 166 to 183 leaves in the copy \<open>M\<close> of the first posting
  set, for the later labels in their order: for each label whose posting set is known and
  not empty the entries that this set does not have are blanked in place, and the loop
  stops at the first label that is unknown, or has an empty posting set, or leaves the copy
  with no value.
\<close>

fun keepRest :: "(string \<times> ref) list \<Rightarrow> (ref \<Rightarrow> SetData) \<Rightarrow> string list \<Rightarrow> SetData \<Rightarrow> SetData" where
  "keepRest idx h [] M = M"
| "keepRest idx h (a # as) M =
     (case map_of idx a of
        None \<Rightarrow> M
      | Some r \<Rightarrow>
          if setSize (h r) = 0 then M
          else if setSize (keepIn (h r) M) = 0 then keepIn (h r) M
          else keepRest idx h as (keepIn (h r) M))"


section \<open>Counting the steps of the prefix lookup\<close>

text \<open>
  The lookup with a counter. \<open>matchTokenCounted\<close> and \<open>searchByNameCounted\<close> are
  \<^const>\<open>matchToken\<close> and \<^const>\<open>searchByName\<close> with one more component in the state of the
  loops: the number of runs of the body of the loop over \<^verbatim>\<open>this.nameIndex.entries()\<close> (lines
  88 to 92), which is increased by one in that body and nowhere else.
\<close>

definition matchTokenCounted :: "ref \<Rightarrow> string \<Rightarrow> FacilityService \<times> nat \<Rightarrow> FacilityService \<times> nat" where
  "matchTokenCounted matchingIds queryToken sn =
     (case sn of
        (s, n) \<Rightarrow>
          (let s1 = (case mapGet (nameIndex s) queryToken of
                       Some exactMatch \<Rightarrow> addAll exactMatch matchingIds s
                     | None \<Rightarrow> s)
           in fold (\<lambda>(indexedToken, facilityIds) (t, k).
                      (if indexedToken \<noteq> queryToken \<and> startsWith indexedToken queryToken
                       then addAll facilityIds matchingIds t
                       else t,
                       Suc k))
                (nameIndex s1) (s1, n)))"

definition searchByNameCounted ::
  "(string \<Rightarrow> string \<Rightarrow> int) \<Rightarrow> FacilityService \<Rightarrow> string
     \<Rightarrow> (FacilitySearchResult list \<times> FacilityService) \<times> nat" where
  "searchByNameCounted lc s query =
     (if query = [] \<or> length (trim query) = 0 then (([], s), 0)
      else
        let normalizedQuery = trim (toLowerCase query);
            queryTokens = filter (\<lambda>t. length t > 0) (splitWs normalizedQuery)
        in case newSet [] s of
             (matchingIds, s1) \<Rightarrow>
               (case fold (matchTokenCounted matchingIds) queryTokens (s1, 0) of
                  (s2, n) \<Rightarrow>
                    let results = toResults (facilityIndex s2) (setValues (sets s2 matchingIds))
                    in ((sortBy (rankCompare lc normalizedQuery) results, s2), n)))"


section \<open>The ranking of the specification\<close>



text \<open>
  A consistent comparator for a set of values, as ECMAScript defines it for
  \<^verbatim>\<open>Array.prototype.sort\<close>: the values that compare as 0 form equivalence classes, and the
  comparator orders these classes.
\<close>

definition consistentComparator :: "('a \<Rightarrow> 'a \<Rightarrow> int) \<Rightarrow> 'a set \<Rightarrow> bool" where
  "consistentComparator cmp S =
     (\<forall>a \<in> S. \<forall>b \<in> S. \<forall>c \<in> S.
        cmp a a = 0
        \<and> (cmp a b = 0 \<longrightarrow> cmp b a = 0)
        \<and> (cmp a b = 0 \<and> cmp b c = 0 \<longrightarrow> cmp a c = 0)
        \<and> (cmp a b < 0 \<and> cmp b c < 0 \<longrightarrow> cmp a c < 0)
        \<and> (cmp a b > 0 \<and> cmp b c > 0 \<longrightarrow> cmp a c > 0))"


section \<open>Example data\<close>

definition facilityF1 :: Facility where
  "facilityF1 =
     \<lparr>Facility.id' = ''f1'', Facility.name = ''City Fitness Central'',
      Facility.address = ''1 Main St'',
      Facility.location = \<lparr>latitude = 0, longitude = 0\<rparr>,
      Facility.facilities = [''Pool'', ''Sauna'']\<rparr>"

definition facilityF2 :: Facility where
  "facilityF2 =
     \<lparr>Facility.id' = ''f2'', Facility.name = ''City Gym Plus'',
      Facility.address = ''2 High St'',
      Facility.location = \<lparr>latitude = 0, longitude = 0\<rparr>,
      Facility.facilities = [''Pool'']\<rparr>"

text \<open>A second record that carries the identifier of \<^term>\<open>facilityF1\<close>.\<close>

definition facilityF1' :: Facility where
  "facilityF1' =
     \<lparr>Facility.id' = ''f1'', Facility.name = ''Harbour Club'',
      Facility.address = ''3 Quay Rd'',
      Facility.location = \<lparr>latitude = 0, longitude = 0\<rparr>,
      Facility.facilities = []\<rparr>"



text \<open>A collation for the examples: comparison by code units.\<close>

fun codeUnitCompare :: "string \<Rightarrow> string \<Rightarrow> int" where
  "codeUnitCompare [] [] = 0"
| "codeUnitCompare [] (y # ys) = - 1"
| "codeUnitCompare (x # xs) [] = 1"
| "codeUnitCompare (x # xs) (y # ys) =
     (if (of_char x :: nat) < of_char y then - 1
      else if (of_char y :: nat) < of_char x then 1
      else codeUnitCompare xs ys)"


section \<open>The record index after construction\<close>

lemma mapSet_absent: "map_of m k = None \<Longrightarrow> mapSet m k v = m @ [(k, v)]"
  unfolding mapSet_def by (induction m) (auto split: if_splits)

lemma find_append:
  "List.find P (xs @ ys) = (case List.find P xs of None \<Rightarrow> List.find P ys | Some x \<Rightarrow> Some x)"
  by (induction xs) auto

lemma addToNameIndex_frame:
  "facilityIndex (addToNameIndex fid tok s) = facilityIndex s"
  "FacilityService.facilities (addToNameIndex fid tok s) = FacilityService.facilities s"
  "amenityIndex (addToNameIndex fid tok s) = amenityIndex s"
  by (auto simp: addToNameIndex_def newSet_def Let_def split: option.splits)

lemma addToAmenityIndex_frame:
  "facilityIndex (addToAmenityIndex fid a s) = facilityIndex s"
  "FacilityService.facilities (addToAmenityIndex fid a s) = FacilityService.facilities s"
  "nameIndex (addToAmenityIndex fid a s) = nameIndex s"
  by (auto simp: addToAmenityIndex_def newSet_def Let_def split: option.splits)

lemma fold_addToNameIndex_frame:
  "facilityIndex (fold (addToNameIndex fid) toks s) = facilityIndex s"
  "FacilityService.facilities (fold (addToNameIndex fid) toks s) = FacilityService.facilities s"
  "amenityIndex (fold (addToNameIndex fid) toks s) = amenityIndex s"
  by (induction toks arbitrary: s) (simp_all add: addToNameIndex_frame)

lemma fold_addToAmenityIndex_frame:
  "facilityIndex (fold (\<lambda>a. addToAmenityIndex fid (g a)) as s) = facilityIndex s"
  "FacilityService.facilities (fold (\<lambda>a. addToAmenityIndex fid (g a)) as s)
     = FacilityService.facilities s"
  "nameIndex (fold (\<lambda>a. addToAmenityIndex fid (g a)) as s) = nameIndex s"
  by (induction as arbitrary: s) (simp_all add: addToAmenityIndex_frame)

lemma indexFacility_facilityIndex:
  "facilityIndex (indexFacility f s) = mapSet (facilityIndex s) (Facility.id' f) f"
  by (simp add: indexFacility_def Let_def fold_addToAmenityIndex_frame fold_addToNameIndex_frame)

lemma indexFacility_facilities:
  "FacilityService.facilities (indexFacility f s) = FacilityService.facilities s"
  by (simp add: indexFacility_def Let_def fold_addToAmenityIndex_frame fold_addToNameIndex_frame)

lemma fold_indexFacility_facilities:
  "FacilityService.facilities (fold indexFacility fs s) = FacilityService.facilities s"
  by (induction fs arbitrary: s) (simp_all add: indexFacility_facilities)

text \<open>A later record with the same identifier replaces the earlier one in the id index.\<close>

lemma fold_indexFacility_facilityIndex:
  "map_of (facilityIndex (fold indexFacility fs s)) k =
     (case List.find (\<lambda>f. Facility.id' f = k) (rev fs) of
        Some f \<Rightarrow> Some f
      | None \<Rightarrow> map_of (facilityIndex s) k)"
proof (induction fs arbitrary: s)
  case Nil
  then show ?case by simp
next
  case (Cons f fs)
  show ?case
    by (simp add: Cons.IH indexFacility_facilityIndex mapSet_def update_conv' find_append
             split: option.splits)
qed

lemma facilityIndex_new:
  "map_of (facilityIndex (newFacilityService fs)) k = List.find (\<lambda>f. Facility.id' f = k) (rev fs)"
  by (simp add: newFacilityService_def buildIndexes_def fold_indexFacility_facilityIndex
           split: option.splits)

lemma facilities_new: "FacilityService.facilities (newFacilityService fs) = fs"
  by (simp add: newFacilityService_def buildIndexes_def fold_indexFacility_facilities)

lemma find_rev_None: "(List.find P (rev fs) = None) = (\<forall>f \<in> set fs. \<not> P f)"
  by (auto simp: find_None_iff)

lemma find_rev_Some: "List.find P (rev fs) = Some f \<Longrightarrow> f \<in> set fs \<and> P f"
  by (metis find_Some_iff nth_mem set_rev)


section \<open>Identifiers that occur twice (C5)\<close>

text \<open>
  C5, as stated, fails: the build loop has no check for an identifier that is already
  present. With two records that both carry the identifier \<^verbatim>\<open>f1\<close>, the lookup returns the
  second record, not the first, and the count is two although there is one identifier.
\<close>

theorem C5_first_record_kept_counterexample:
  "getById (newFacilityService [facilityF1, facilityF1']) ''f1'' = Some facilityF1'
   \<and> facilityF1' \<noteq> facilityF1
   \<and> getCount (newFacilityService [facilityF1, facilityF1']) = 2
   \<and> card (Facility.id' ` set [facilityF1, facilityF1']) = 1"
  by (simp add: getById_def mapGet_def facilityIndex_new getCount_def facilities_new
        facilityF1_def facilityF1'_def)

text \<open>
  C5, amended: every record of the input is taken into the service. For a non-empty
  identifier the lookup returns the last input record that carries it (a later record
  replaces an earlier one in the id index), and the count is the length of the input
  sequence, records with a repeated identifier included.
\<close>

theorem C5_last_record_wins:
  "getById (newFacilityService fs) x =
     (if x = [] then None else List.find (\<lambda>f. Facility.id' f = x) (rev fs))
   \<and> getCount (newFacilityService fs) = length fs"
  by (simp add: getById_def mapGet_def facilityIndex_new getCount_def facilities_new)


section \<open>Lookup by identifier (C7)\<close>

text \<open>
  C7, as stated, fails: \<^verbatim>\<open>getById\<close> does not trim. The identifier \<^verbatim>\<open>" f1 "\<close> trims to
  the stored identifier \<^verbatim>\<open>"f1"\<close>, and is not found.
\<close>

theorem C7_padded_identifier_counterexample:
  "trim '' f1 '' = ''f1''
   \<and> getById (newFacilityService [facilityF1, facilityF2]) ''f1'' = Some facilityF1
   \<and> getById (newFacilityService [facilityF1, facilityF2]) '' f1 '' = None"
  by (simp add: getById_def mapGet_def facilityIndex_new trim_def isSpace_def
        facilityF1_def facilityF2_def)

text \<open>
  C7, amended: \<^verbatim>\<open>getById\<close> compares the identifier as it is given. It returns the
  not-found value exactly when the identifier is empty or no input record carries exactly
  this identifier, and otherwise it returns a full input record whose identifier is the
  given one. It never fails.
\<close>

theorem C7_getById_exact_identifier:
  "(case getById (newFacilityService fs) x of
      None \<Rightarrow> x = [] \<or> x \<notin> Facility.id' ` set fs
    | Some f \<Rightarrow> x \<noteq> [] \<and> f \<in> set fs \<and> Facility.id' f = x)"
proof (cases "x = []")
  case True
  then show ?thesis by (simp add: getById_def)
next
  case False
  show ?thesis
  proof (cases "List.find (\<lambda>f. Facility.id' f = x) (rev fs)")
    case None
    then have "x \<notin> Facility.id' ` set fs"
      by (auto simp: find_rev_None)
    with None False show ?thesis
      by (simp add: getById_def mapGet_def facilityIndex_new)
  next
    case (Some f)
    from find_rev_Some [OF Some] Some False show ?thesis
      by (simp add: getById_def mapGet_def facilityIndex_new)
  qed
qed

text \<open>The amended C7 on the two example records and the identifier \<^verbatim>\<open>f2\<close>.\<close>

theorem C7_getById_exact_identifier_witness:
  "(case getById (newFacilityService [facilityF1, facilityF2]) ''f2'' of
      None \<Rightarrow> ''f2'' = [] \<or> ''f2'' \<notin> Facility.id' ` set [facilityF1, facilityF2]
    | Some f \<Rightarrow> ''f2'' \<noteq> [] \<and> f \<in> set [facilityF1, facilityF2] \<and> Facility.id' f = ''f2'')
   \<and> getById (newFacilityService [facilityF1, facilityF2]) ''f2'' = Some facilityF2"
  using C7_getById_exact_identifier [where fs = "[facilityF1, facilityF2]" and x = "''f2''"]
  by (simp add: getById_def mapGet_def facilityIndex_new facilityF1_def facilityF2_def)


section \<open>The token indexes after construction\<close>

lemma setValues_simps [simp]:
  "setValues [] = []"
  "setValues (Some x # S) = x # setValues S"
  "setValues (None # S) = setValues S"
  "setValues (S @ T) = setValues S @ setValues T"
  by (simp_all add: setValues_def)

lemma set_setValues: "set (setValues S) = {x. Some x \<in> set S}"
  by (induction S) (auto split: option.splits simp: setValues_def)

lemma setHas_iff: "setHas S x = (x \<in> set (setValues S))"
  by (simp add: setHas_def set_setValues)

lemma set_setValues_setAdd: "set (setValues (setAdd S x)) = insert x (set (setValues S))"
  by (auto simp: setAdd_def setHas_iff)

lemma distinct_setValues_setAdd:
  "distinct (setValues S) \<Longrightarrow> distinct (setValues (setAdd S x))"
  by (auto simp: setAdd_def setHas_iff)

lemma setValues_setDelete: "setValues (setDelete S x) = removeAll x (setValues S)"
proof (induction S)
  case Nil
  then show ?case by (simp add: setDelete_def)
next
  case (Cons e S)
  then show ?case by (cases e) (auto simp: setDelete_def)
qed

lemma map_of_snd_inj:
  "distinct (map snd idx) \<Longrightarrow> map_of idx k = Some r \<Longrightarrow> map_of idx k' = Some r \<Longrightarrow> k = k'"
  by (induction idx) (auto split: if_splits dest: map_of_SomeD simp: rev_image_eqI)

lemma map_of_snd_mem: "map_of idx k = Some r \<Longrightarrow> r \<in> snd ` set idx"
  by (auto dest!: map_of_SomeD simp: rev_image_eqI)

lemma addToNameIndex_present:
  "map_of (nameIndex s) tok = Some r \<Longrightarrow>
   addToNameIndex fid tok s = s\<lparr>sets := (sets s)(r := setAdd (sets s r) fid)\<rparr>"
  by (simp add: addToNameIndex_def mapHas_def mapGet_def)

lemma addToNameIndex_absent:
  "map_of (nameIndex s) tok = None \<Longrightarrow>
   addToNameIndex fid tok s =
     s\<lparr>sets := (sets s)(nextRef s := [Some fid]), nextRef := Suc (nextRef s),
       nameIndex := nameIndex s @ [(tok, nextRef s)]\<rparr>"
  by (simp add: addToNameIndex_def mapHas_def mapGet_def newSet_def mapSet_absent setAdd_def
        setHas_def Let_def map_add_def)

lemma refsOk_lt:
  "refsOk s \<Longrightarrow> map_of (nameIndex s) k = Some r \<Longrightarrow> r < nextRef s"
  "refsOk s \<Longrightarrow> map_of (amenityIndex s) k = Some r \<Longrightarrow> r < nextRef s"
  by (auto simp: refsOk_def dest!: map_of_snd_mem)

lemma refsOk_disjoint:
  "refsOk s \<Longrightarrow> map_of (nameIndex s) k = Some r \<Longrightarrow> map_of (amenityIndex s) k' = Some r' \<Longrightarrow> r \<noteq> r'"
  by (auto simp: refsOk_def dest!: map_of_snd_mem)

lemma refsOk_inj:
  "refsOk s \<Longrightarrow> map_of (nameIndex s) k = Some r \<Longrightarrow> map_of (nameIndex s) k' = Some r \<Longrightarrow> k = k'"
  "refsOk s \<Longrightarrow> map_of (amenityIndex s) k = Some r \<Longrightarrow> map_of (amenityIndex s) k' = Some r \<Longrightarrow> k = k'"
  by (metis map_of_snd_inj refsOk_def distinct_append)+

lemma addToNameIndex_refsOk: "refsOk s \<Longrightarrow> refsOk (addToNameIndex fid tok s)"
proof (cases "map_of (nameIndex s) tok")
  case None
  assume "refsOk s"
  then show ?thesis
    unfolding addToNameIndex_absent [OF None] refsOk_def by (auto simp: less_Suc_eq rev_image_eqI)
next
  case (Some r)
  assume "refsOk s"
  then show ?thesis
    unfolding addToNameIndex_present [OF Some] refsOk_def by simp
qed

lemma addToNameIndex_postings:
  assumes "refsOk s"
  shows "postings (nameIndex (addToNameIndex fid tok s)) (sets (addToNameIndex fid tok s)) k
         = postings (nameIndex s) (sets s) k \<union> (if k = tok then {fid} else {})"
proof (cases "map_of (nameIndex s) tok")
  case None
  show ?thesis
  proof (cases "map_of (nameIndex s) k")
    case N2: None
    with None show ?thesis
      by (simp add: addToNameIndex_absent postings_def map_add_def)
  next
    case (Some r)
    with refsOk_lt(1) [OF assms Some] None have "k \<noteq> tok" "r \<noteq> nextRef s" by auto
    with None Some show ?thesis
      by (simp add: addToNameIndex_absent postings_def map_add_def)
  qed
next
  case (Some r)
  show ?thesis
  proof (cases "k = tok")
    case True
    with Some show ?thesis
      by (simp add: addToNameIndex_present postings_def set_setValues_setAdd)
  next
    case False
    with refsOk_inj(1) [OF assms _ Some] have "map_of (nameIndex s) k \<noteq> Some r" by blast
    with Some False show ?thesis
      by (auto simp: addToNameIndex_present postings_def split: option.splits)
  qed
qed

lemma addToNameIndex_other_postings:
  assumes "refsOk s"
  shows "postings (amenityIndex (addToNameIndex fid tok s)) (sets (addToNameIndex fid tok s)) k
         = postings (amenityIndex s) (sets s) k"
proof (cases "map_of (amenityIndex s) k")
  case None
  then show ?thesis
    by (cases "map_of (nameIndex s) tok")
       (simp_all add: addToNameIndex_absent addToNameIndex_present postings_def)
next
  case (Some r')
  show ?thesis
  proof (cases "map_of (nameIndex s) tok")
    case None
    with refsOk_lt(2) [OF assms Some] Some show ?thesis
      by (simp add: addToNameIndex_absent postings_def)
  next
    case S2: (Some r)
    with refsOk_disjoint [OF assms S2 Some] Some show ?thesis
      by (simp add: addToNameIndex_present postings_def)
  qed
qed

lemma addToAmenityIndex_present:
  "map_of (amenityIndex s) tok = Some r \<Longrightarrow>
   addToAmenityIndex fid tok s = s\<lparr>sets := (sets s)(r := setAdd (sets s r) fid)\<rparr>"
  by (simp add: addToAmenityIndex_def mapHas_def mapGet_def)

lemma addToAmenityIndex_absent:
  "map_of (amenityIndex s) tok = None \<Longrightarrow>
   addToAmenityIndex fid tok s =
     s\<lparr>sets := (sets s)(nextRef s := [Some fid]), nextRef := Suc (nextRef s),
       amenityIndex := amenityIndex s @ [(tok, nextRef s)]\<rparr>"
  by (simp add: addToAmenityIndex_def mapHas_def mapGet_def newSet_def mapSet_absent setAdd_def
        setHas_def Let_def map_add_def)

lemma addToAmenityIndex_refsOk: "refsOk s \<Longrightarrow> refsOk (addToAmenityIndex fid tok s)"
proof (cases "map_of (amenityIndex s) tok")
  case None
  assume "refsOk s"
  then show ?thesis
    unfolding addToAmenityIndex_absent [OF None] refsOk_def by (auto simp: less_Suc_eq rev_image_eqI)
next
  case (Some r)
  assume "refsOk s"
  then show ?thesis
    unfolding addToAmenityIndex_present [OF Some] refsOk_def by simp
qed

lemma addToAmenityIndex_postings:
  assumes "refsOk s"
  shows "postings (amenityIndex (addToAmenityIndex fid tok s)) (sets (addToAmenityIndex fid tok s)) k
         = postings (amenityIndex s) (sets s) k \<union> (if k = tok then {fid} else {})"
proof (cases "map_of (amenityIndex s) tok")
  case None
  show ?thesis
  proof (cases "map_of (amenityIndex s) k")
    case N2: None
    with None show ?thesis
      by (simp add: addToAmenityIndex_absent postings_def map_add_def)
  next
    case (Some r)
    with refsOk_lt(2) [OF assms Some] None have "k \<noteq> tok" "r \<noteq> nextRef s" by auto
    with None Some show ?thesis
      by (simp add: addToAmenityIndex_absent postings_def map_add_def)
  qed
next
  case (Some r)
  show ?thesis
  proof (cases "k = tok")
    case True
    with Some show ?thesis
      by (simp add: addToAmenityIndex_present postings_def set_setValues_setAdd)
  next
    case False
    with refsOk_inj(2) [OF assms _ Some] have "map_of (amenityIndex s) k \<noteq> Some r" by blast
    with Some False show ?thesis
      by (auto simp: addToAmenityIndex_present postings_def split: option.splits)
  qed
qed

lemma addToAmenityIndex_other_postings:
  assumes "refsOk s"
  shows "postings (nameIndex (addToAmenityIndex fid tok s)) (sets (addToAmenityIndex fid tok s)) k
         = postings (nameIndex s) (sets s) k"
proof (cases "map_of (nameIndex s) k")
  case None
  then show ?thesis
    by (cases "map_of (amenityIndex s) tok")
       (simp_all add: addToAmenityIndex_absent addToAmenityIndex_present postings_def)
next
  case (Some r')
  show ?thesis
  proof (cases "map_of (amenityIndex s) tok")
    case None
    with refsOk_lt(1) [OF assms Some] Some show ?thesis
      by (simp add: addToAmenityIndex_absent postings_def)
  next
    case S2: (Some r)
    with refsOk_disjoint [OF assms Some S2] Some show ?thesis
      by (simp add: addToAmenityIndex_present postings_def)
  qed
qed

lemma fold_addToNameIndex:
  assumes "refsOk s"
  shows "refsOk (fold (addToNameIndex fid) toks s)
    \<and> postings (nameIndex (fold (addToNameIndex fid) toks s)) (sets (fold (addToNameIndex fid) toks s)) k
         = postings (nameIndex s) (sets s) k \<union> (if k \<in> set toks then {fid} else {})
    \<and> postings (amenityIndex (fold (addToNameIndex fid) toks s)) (sets (fold (addToNameIndex fid) toks s)) k
         = postings (amenityIndex s) (sets s) k"
  using assms
proof (induction toks arbitrary: s)
  case Nil
  then show ?case by simp
next
  case (Cons t toks)
  from Cons.IH [OF addToNameIndex_refsOk [OF Cons.prems], of fid t]
  show ?case
    by (auto simp: addToNameIndex_postings [OF Cons.prems]
          addToNameIndex_other_postings [OF Cons.prems])
qed

lemma fold_addToAmenityIndex:
  assumes "refsOk s"
  shows "refsOk (fold (\<lambda>a. addToAmenityIndex fid (g a)) as s)
    \<and> postings (amenityIndex (fold (\<lambda>a. addToAmenityIndex fid (g a)) as s))
          (sets (fold (\<lambda>a. addToAmenityIndex fid (g a)) as s)) k
         = postings (amenityIndex s) (sets s) k \<union> (if k \<in> g ` set as then {fid} else {})
    \<and> postings (nameIndex (fold (\<lambda>a. addToAmenityIndex fid (g a)) as s))
          (sets (fold (\<lambda>a. addToAmenityIndex fid (g a)) as s)) k
         = postings (nameIndex s) (sets s) k"
  using assms
proof (induction as arbitrary: s)
  case Nil
  then show ?case by simp
next
  case (Cons a as)
  from Cons.IH [OF addToAmenityIndex_refsOk [OF Cons.prems], of fid "g a"]
  show ?case
    by (auto simp: addToAmenityIndex_postings [OF Cons.prems]
          addToAmenityIndex_other_postings [OF Cons.prems])
qed

lemma refsOk_facilityIndex_update [simp]: "refsOk (s\<lparr>facilityIndex := fi\<rparr>) = refsOk s"
  by (simp add: refsOk_def)

lemma indexFacility_inv:
  assumes "refsOk s"
  shows "refsOk (indexFacility f s)
    \<and> postings (nameIndex (indexFacility f s)) (sets (indexFacility f s)) k
         = postings (nameIndex s) (sets s) k
           \<union> (if k \<in> set (tokenizeName (Facility.name f)) then {Facility.id' f} else {})
    \<and> postings (amenityIndex (indexFacility f s)) (sets (indexFacility f s)) k
         = postings (amenityIndex s) (sets s) k
           \<union> (if k \<in> toLowerCase ` set (Facility.facilities f) then {Facility.id' f} else {})"
proof -
  let ?s1 = "s\<lparr>facilityIndex := mapSet (facilityIndex s) (Facility.id' f) f\<rparr>"
  let ?s2 = "fold (addToNameIndex (Facility.id' f)) (tokenizeName (Facility.name f)) ?s1"
  have ok1: "refsOk ?s1" using assms by simp
  note n = fold_addToNameIndex [OF ok1, of "Facility.id' f" "tokenizeName (Facility.name f)" k]
  from n have ok2: "refsOk ?s2" by simp
  note a = fold_addToAmenityIndex [OF ok2, of "Facility.id' f" toLowerCase "Facility.facilities f" k]
  have eq: "indexFacility f s
     = fold (\<lambda>a. addToAmenityIndex (Facility.id' f) (toLowerCase a)) (Facility.facilities f) ?s2"
    by (simp add: indexFacility_def Let_def)
  show ?thesis
    unfolding eq using n a by simp
qed

lemma fold_indexFacility_inv:
  assumes "refsOk s"
  shows "refsOk (fold indexFacility fs s)
    \<and> postings (nameIndex (fold indexFacility fs s)) (sets (fold indexFacility fs s)) k
         = postings (nameIndex s) (sets s) k
           \<union> {Facility.id' f |f. f \<in> set fs \<and> k \<in> set (tokenizeName (Facility.name f))}
    \<and> postings (amenityIndex (fold indexFacility fs s)) (sets (fold indexFacility fs s)) k
         = postings (amenityIndex s) (sets s) k
           \<union> {Facility.id' f |f. f \<in> set fs \<and> k \<in> toLowerCase ` set (Facility.facilities f)}"
  using assms
proof (induction fs arbitrary: s)
  case Nil
  then show ?case by simp
next
  case (Cons f fs)
  note step = indexFacility_inv [OF Cons.prems, of f k]
  from step have ok: "refsOk (indexFacility f s)" by simp
  from Cons.IH [OF ok] step show ?case
    by (simp only: fold_simps) (auto split: if_splits)
qed

lemma refsOk_new: "refsOk (newFacilityService fs)"
  unfolding newFacilityService_def buildIndexes_def
  using fold_indexFacility_inv [of "\<lparr>FacilityService.facilities = fs, facilityIndex = [], nameIndex = [], amenityIndex = [], sets = (\<lambda>r. []), nextRef = 0\<rparr>" fs]
  by (simp add: refsOk_def)

lemma name_postings_new:
  "postings (nameIndex (newFacilityService fs)) (sets (newFacilityService fs)) k
     = {Facility.id' f |f. f \<in> set fs \<and> k \<in> set (tokenizeName (Facility.name f))}"
  unfolding newFacilityService_def buildIndexes_def
  using fold_indexFacility_inv [of "\<lparr>FacilityService.facilities = fs, facilityIndex = [], nameIndex = [], amenityIndex = [], sets = (\<lambda>r. []), nextRef = 0\<rparr>" fs k]
  by (simp add: refsOk_def postings_def)

lemma amenity_postings_new:
  "postings (amenityIndex (newFacilityService fs)) (sets (newFacilityService fs)) k
     = {Facility.id' f |f. f \<in> set fs \<and> k \<in> toLowerCase ` set (Facility.facilities f)}"
  unfolding newFacilityService_def buildIndexes_def
  using fold_indexFacility_inv [of "\<lparr>FacilityService.facilities = fs, facilityIndex = [], nameIndex = [], amenityIndex = [], sets = (\<lambda>r. []), nextRef = 0\<rparr>" fs k]
  by (simp add: refsOk_def postings_def)


section \<open>Sets, sorting and the result projection\<close>

lemma fold_setAdd_values:
  "set (setValues (fold (\<lambda>x S. setAdd S x) xs S)) = set (setValues S) \<union> set xs"
  by (induction xs arbitrary: S) (auto simp: set_setValues_setAdd)

lemma fold_setAdd_distinct:
  "distinct (setValues S) \<Longrightarrow> distinct (setValues (fold (\<lambda>x S. setAdd S x) xs S))"
  by (induction xs arbitrary: S) (auto simp: distinct_setValues_setAdd)

lemma fold_sets_update:
  "fold (\<lambda>x t. t\<lparr>sets := (sets t)(dst := setAdd (sets t dst) x)\<rparr>) xs s
     = s\<lparr>sets := (sets s)(dst := fold (\<lambda>x S. setAdd S x) xs (sets s dst))\<rparr>"
  by (induction xs arbitrary: s) simp_all

lemma addAll_eq:
  "addAll src dst s
     = s\<lparr>sets := (sets s)(dst := fold (\<lambda>x S. setAdd S x) (setValues (sets s src)) (sets s dst))\<rparr>"
  by (simp add: addAll_def fold_sets_update)

lemma set_insertBy: "set (insertBy c x ys) = insert x (set ys)"
  by (induction ys) auto

lemma set_fold_insertBy: "set (fold (insertBy c) xs acc) = set xs \<union> set acc"
  by (induction xs arbitrary: acc) (auto simp: set_insertBy)

lemma set_sortBy: "set (sortBy c xs) = set xs"
  by (simp add: sortBy_def set_fold_insertBy)

lemma distinct_map_insertBy:
  "distinct (map f (insertBy c x ys)) = (f x \<notin> f ` set ys \<and> distinct (map f ys))"
  by (induction ys) (auto simp: set_insertBy)

lemma distinct_map_fold_insertBy:
  "distinct (map f (fold (insertBy c) xs acc)) = distinct (map f (xs @ acc))"
  by (induction xs arbitrary: acc) (auto simp: distinct_map_insertBy set_fold_insertBy set_insertBy)

lemma distinct_map_sortBy: "distinct (map f (sortBy c xs)) = distinct (map f xs)"
  by (simp add: sortBy_def distinct_map_fold_insertBy)

lemma toResults_ids:
  "\<forall>x \<in> set xs. \<exists>f. map_of fi x = Some f \<and> Facility.id' f = x \<Longrightarrow>
   map FacilitySearchResult.id' (toResults fi xs) = xs"
  by (induction xs) (auto simp: mapGet_def)

lemma facilityIndex_new_Some:
  "map_of (facilityIndex (newFacilityService fs)) k = Some f \<Longrightarrow> f \<in> set fs \<and> Facility.id' f = k"
  using find_rev_Some [of "\<lambda>f. Facility.id' f = k" fs f] by (simp add: facilityIndex_new)

lemma facilityIndex_new_present:
  "f \<in> set fs \<Longrightarrow>
   \<exists>f'. map_of (facilityIndex (newFacilityService fs)) (Facility.id' f) = Some f'
        \<and> Facility.id' f' = Facility.id' f"
proof -
  assume "f \<in> set fs"
  then have "List.find (\<lambda>g. Facility.id' g = Facility.id' f) (rev fs) \<noteq> None"
    by (auto simp: find_rev_None)
  then obtain f' where "List.find (\<lambda>g. Facility.id' g = Facility.id' f) (rev fs) = Some f'"
    by auto
  with find_rev_Some [OF this] show ?thesis
    by (auto simp: facilityIndex_new)
qed

lemma retainLoop_unfold:
  "\<not> i < length (h m) \<Longrightarrow> retainLoop m a i h = h"
  "i < length (h m) \<Longrightarrow> h m ! i = None \<Longrightarrow> retainLoop m a i h = retainLoop m a (Suc i) h"
  "i < length (h m) \<Longrightarrow> h m ! i = Some x \<Longrightarrow> \<not> setHas (h a) x \<Longrightarrow>
     retainLoop m a i h = retainLoop m a (Suc i) (h(m := setDelete (h m) x))"
  "i < length (h m) \<Longrightarrow> h m ! i = Some x \<Longrightarrow> setHas (h a) x \<Longrightarrow>
     retainLoop m a i h = retainLoop m a (Suc i) h"
  by (simp_all add: retainLoop.simps [of m a i h])

lemma retainLoop_frame: "r \<noteq> m \<Longrightarrow> retainLoop m a i h r = h r"
proof (induction m a i h rule: retainLoop.induct)
  case (1 m a i h)
  show ?case
  proof (cases "i < length (h m)")
    case False
    then show ?thesis by (simp add: retainLoop_unfold(1))
  next
    case True
    show ?thesis
    proof (cases "h m ! i")
      case None
      from "1.IH"(1) [OF True None "1.prems"] show ?thesis
        by (simp only: retainLoop_unfold(2) [where h = h and m = m and i = i and a = a, OF True None])
    next
      case (Some x)
      show ?thesis
      proof (cases "setHas (h a) x")
        case has: True
        then have nn: "\<not> \<not> setHas (h a) x" by simp
        from "1.IH"(3) [OF True Some nn "1.prems"] show ?thesis
          by (simp only: retainLoop_unfold(4) [where h = h and m = m and i = i and a = a, OF True Some has])
      next
        case hasnt: False
        have "retainLoop m a (Suc i) (h(m := setDelete (h m) x)) r = (h(m := setDelete (h m) x)) r"
          by (rule "1.IH"(2) [OF True Some hasnt "1.prems"])
        also have "\<dots> = h r" using "1.prems" by simp
        finally show ?thesis
          by (simp only: retainLoop_unfold(3) [where h = h and m = m and i = i and a = a, OF True Some hasnt])
      qed
    qed
  qed
qed

lemma keepIn_simps [simp]:
  "keepIn A [] = []"
  "keepIn A (None # S) = None # keepIn A S"
  "keepIn A (Some x # S) = (if setHas A x then Some x else None) # keepIn A S"
  by (simp_all add: keepIn_def)

lemma keepIn_setDelete: "\<not> setHas A x \<Longrightarrow> keepIn A (setDelete S x) = keepIn A S"
  by (auto simp: keepIn_def setDelete_def split: option.splits)

lemma length_setDelete [simp]: "length (setDelete S x) = length S"
  by (simp add: setDelete_def)

lemma nth_setDelete:
  "j < length S \<Longrightarrow> setDelete S x ! j = (if S ! j = Some x then None else S ! j)"
  by (simp add: setDelete_def)

lemma retainLoop_at:
  assumes "m \<noteq> a"
    and "\<forall>j < i. \<forall>x. h m ! j = Some x \<longrightarrow> setHas (h a) x"
    and "i \<le> length (h m)"
  shows "retainLoop m a i h m = keepIn (h a) (h m)"
  using assms
proof (induction m a i h rule: retainLoop.induct)
  case (1 m a i h)
  show ?case
  proof (cases "i < length (h m)")
    case False
    with "1.prems" have len: "i = length (h m)" by simp
    have "keepIn (h a) (h m) = h m"
      unfolding keepIn_def
      by (rule map_idI) (use "1.prems"(2) len in \<open>auto simp: in_set_conv_nth split: option.splits\<close>)
    with False show ?thesis by (simp add: retainLoop_unfold(1))
  next
    case True
    then have le: "Suc i \<le> length (h m)" by simp
    show ?thesis
    proof (cases "h m ! i")
      case None
      have "\<forall>j < Suc i. \<forall>x. h m ! j = Some x \<longrightarrow> setHas (h a) x"
        using "1.prems"(2) None by (auto simp: less_Suc_eq)
      from "1.IH"(1) [OF True None "1.prems"(1) this le] show ?thesis
        by (simp only: retainLoop_unfold(2) [where h = h and m = m and i = i and a = a, OF True None])
    next
      case (Some x)
      show ?thesis
      proof (cases "setHas (h a) x")
        case has: True
        have "\<forall>j < Suc i. \<forall>x. h m ! j = Some x \<longrightarrow> setHas (h a) x"
          using "1.prems"(2) Some has by (auto simp: less_Suc_eq)
        have nn: "\<not> \<not> setHas (h a) x" using has by simp
        from "1.IH"(3) [OF True Some nn "1.prems"(1) \<open>\<forall>j < Suc i. \<forall>x. h m ! j = Some x \<longrightarrow> setHas (h a) x\<close> le] show ?thesis
          by (simp only: retainLoop_unfold(4) [where h = h and m = m and i = i and a = a, OF True Some has])
      next
        case hasnt: False
        let ?h = "h(m := setDelete (h m) x)"
        have a: "?h a = h a" using "1.prems"(1) by simp
        have m: "?h m = setDelete (h m) x" by simp
        have inv: "\<forall>j < Suc i. \<forall>y. ?h m ! j = Some y \<longrightarrow> setHas (?h a) y"
          unfolding a m using "1.prems"(2) True Some by (auto simp: less_Suc_eq nth_setDelete)
        have le': "Suc i \<le> length (?h m)" unfolding m using le by simp
        have "retainLoop m a (Suc i) ?h m = keepIn (?h a) (?h m)"
          by (rule "1.IH"(2) [OF True Some hasnt "1.prems"(1) inv le'])
        also have "\<dots> = keepIn (h a) (h m)"
          unfolding a m by (rule keepIn_setDelete [OF hasnt])
        finally show ?thesis
          by (simp only: retainLoop_unfold(3) [where h = h and m = m and i = i and a = a, OF True Some hasnt])
      qed
    qed
  qed
qed

lemma retainLoop_eq:
  "m \<noteq> a \<Longrightarrow> retainLoop m a 0 h = h(m := keepIn (h a) (h m))"
  by (rule ext) (simp add: retainLoop_frame retainLoop_at)

lemma setValues_keepIn: "setValues (keepIn A S) = filter (\<lambda>x. x \<in> set (setValues A)) (setValues S)"
proof (induction S)
  case Nil
  then show ?case by simp
next
  case (Cons e S)
  then show ?case by (cases e) (simp_all add: setHas_iff)
qed


section \<open>The amenity intersection\<close>

lemma retainLoop_only: "retainLoop m a 0 h = h(m := retainLoop m a 0 h m)"
  by (rule ext) (simp add: retainLoop_frame)

lemma sameBut_refl: "sameBut m s s"
  by (simp add: sameBut_def)

lemma sameBut_trans: "sameBut m s t \<Longrightarrow> sameBut m t u \<Longrightarrow> sameBut m s u"
  by (simp add: sameBut_def)

lemma sameBut_sets_update: "sameBut m s (s\<lparr>sets := (sets s)(m := M)\<rparr>)"
  by (simp add: sameBut_def)

lemma sameBut_retainLoop: "sameBut m s (s\<lparr>sets := retainLoop m a 0 (sets s)\<rparr>)"
  by (simp add: sameBut_def retainLoop_frame)

lemma intersectRest_frame: "sameBut m s (snd (intersectRest m as s))"
proof (induction as arbitrary: s)
  case Nil
  show ?case by (simp add: sameBut_refl)
next
  case (Cons a as)
  show ?case
  proof (cases "mapGet (amenityIndex s) a")
    case None
    then show ?thesis by (simp add: sameBut_refl)
  next
    case (Some r)
    let ?s' = "s\<lparr>sets := retainLoop m r 0 (sets s)\<rparr>"
    have "sameBut m s (snd (intersectRest m as ?s'))"
      by (rule sameBut_trans [OF sameBut_retainLoop Cons.IH])
    with Some show ?thesis
      by (simp add: Let_def sameBut_refl sameBut_retainLoop)
  qed
qed

lemma intersectRest_values:
  assumes "\<forall>k r. map_of (amenityIndex s) k = Some r \<longrightarrow> r \<noteq> m"
  shows "(if fst (intersectRest m as s) then setValues (sets (snd (intersectRest m as s)) m) else [])
         = filter (\<lambda>x. \<forall>k \<in> set as. x \<in> postings (amenityIndex s) (sets s) k) (setValues (sets s m))"
  using assms
proof (induction as arbitrary: s)
  case Nil
  then show ?case by simp
next
  case (Cons a as)
  show ?case
  proof (cases "map_of (amenityIndex s) a")
    case None
    then have "postings (amenityIndex s) (sets s) a = {}" by (simp add: postings_def)
    with None show ?thesis by (simp add: mapGet_def)
  next
    case (Some r)
    then have pa: "postings (amenityIndex s) (sets s) a = set (setValues (sets s r))"
      by (simp add: postings_def)
    from Cons.prems Some have rm: "m \<noteq> r" by blast
    let ?s' = "s\<lparr>sets := retainLoop m r 0 (sets s)\<rparr>"
    have s': "?s' = s\<lparr>sets := (sets s)(m := keepIn (sets s r) (sets s m))\<rparr>"
      by (simp add: retainLoop_eq [OF rm])
    have vals: "setValues (sets ?s' m)
       = filter (\<lambda>x. x \<in> postings (amenityIndex s) (sets s) a) (setValues (sets s m))"
      by (simp add: s' setValues_keepIn pa)
    have post: "postings (amenityIndex ?s') (sets ?s') k = postings (amenityIndex s) (sets s) k" for k
      using Cons.prems by (auto simp: s' postings_def split: option.splits)
    have prem': "\<forall>k r. map_of (amenityIndex ?s') k = Some r \<longrightarrow> r \<noteq> m"
      using Cons.prems by simp
    note ih = Cons.IH [OF prem', unfolded post vals]
    show ?thesis
    proof (cases "setSize (sets s r) = 0")
      case True
      then have "postings (amenityIndex s) (sets s) a = {}"
        by (simp add: pa setSize_def)
      with Some True show ?thesis by (simp add: mapGet_def)
    next
      case False
      show ?thesis
      proof (cases "setSize (sets ?s' m) = 0")
        case True
        then have "filter (\<lambda>x. x \<in> postings (amenityIndex s) (sets s) a) (setValues (sets s m)) = []"
          using vals by (simp add: setSize_def)
        then have "filter (\<lambda>x. \<forall>k \<in> set (a # as). x \<in> postings (amenityIndex s) (sets s) k)
                     (setValues (sets s m)) = []"
          by (auto simp: filter_empty_conv)
        with Some False True show ?thesis by (simp add: mapGet_def Let_def)
      next
        case nz: False
        have "filter (\<lambda>x. \<forall>k \<in> set (a # as). x \<in> postings (amenityIndex s) (sets s) k)
                     (setValues (sets s m))
            = filter (\<lambda>x. \<forall>k \<in> set as. x \<in> postings (amenityIndex s) (sets s) k)
                (filter (\<lambda>x. x \<in> postings (amenityIndex s) (sets s) a) (setValues (sets s m)))"
          by (auto intro: filter_cong)
        with Some False nz ih show ?thesis
          by (simp add: mapGet_def Let_def split: if_splits)
      qed
    qed
  qed
qed

lemma sameBut_fields:
  "sameBut m s t \<Longrightarrow> facilityIndex t = facilityIndex s"
  "sameBut m s t \<Longrightarrow> amenityIndex t = amenityIndex s"
  "sameBut m s t \<Longrightarrow> nameIndex t = nameIndex s"
  "sameBut m s t \<Longrightarrow> nextRef t = nextRef s"
  "sameBut m s t \<Longrightarrow> FacilityService.facilities t = FacilityService.facilities s"
  "sameBut m s t \<Longrightarrow> r \<noteq> m \<Longrightarrow> sets t r = sets s r"
  by (simp_all add: sameBut_def)

lemma filterByAmenities_ids:
  assumes ok: "refsOk s"
    and fi: "\<And>k x. x \<in> postings (amenityIndex s) (sets s) k
               \<Longrightarrow> \<exists>f. map_of (facilityIndex s) x = Some f \<and> Facility.id' f = x"
  shows "set (map FacilitySearchResult.id' (fst (filterByAmenities s (a # as))))
           = (\<Inter>k \<in> set (map toLowerCase (a # as)). postings (amenityIndex s) (sets s) k)
         \<and> distinct (map FacilitySearchResult.id' (fst (filterByAmenities s (a # as))))"
proof (cases "map_of (amenityIndex s) (toLowerCase a)")
  case None
  then have "postings (amenityIndex s) (sets s) (toLowerCase a) = {}"
    by (simp add: postings_def)
  with None show ?thesis
    by (simp add: filterByAmenities_def mapGet_def)
next
  case (Some r)
  then have pa: "postings (amenityIndex s) (sets s) (toLowerCase a) = set (setValues (sets s r))"
    by (simp add: postings_def)
  show ?thesis
  proof (cases "setSize (sets s r) = 0")
    case True
    with pa have "postings (amenityIndex s) (sets s) (toLowerCase a) = {}"
      by (simp add: setSize_def)
    with Some True show ?thesis
      by (simp add: filterByAmenities_def mapGet_def)
  next
    case False
    let ?init = "fold (\<lambda>x S. setAdd S x) (setValues (sets s r)) []"
    let ?m = "nextRef s"
    let ?s1 = "s\<lparr>sets := (sets s)(?m := ?init), nextRef := Suc ?m\<rparr>"
    let ?rest = "map toLowerCase as"
    let ?R = "intersectRest ?m ?rest ?s1"
    let ?P = "\<lambda>x. \<forall>k \<in> set ?rest. x \<in> postings (amenityIndex s) (sets s) k"
    have fresh: "\<forall>k r. map_of (amenityIndex ?s1) k = Some r \<longrightarrow> r \<noteq> ?m"
      using refsOk_lt(2) [OF ok] by fastforce
    have post: "postings (amenityIndex s) ((sets s)(?m := ?init)) k
                  = postings (amenityIndex s) (sets s) k" for k
      using refsOk_lt(2) [OF ok, of k] by (auto simp: postings_def split: option.splits)
    have init_set: "set (setValues ?init) = postings (amenityIndex s) (sets s) (toLowerCase a)"
      by (simp add: fold_setAdd_values pa)
    have init_distinct: "distinct (setValues ?init)"
      by (rule fold_setAdd_distinct) simp
    have vals: "(if fst ?R then setValues (sets (snd ?R) ?m) else []) = filter ?P (setValues ?init)"
      using intersectRest_values [OF fresh, of ?rest] by (simp add: post)
    have fidx: "facilityIndex (snd ?R) = facilityIndex s"
      using sameBut_fields(1) [OF intersectRest_frame [of ?m ?s1 ?rest]] by simp
    have res: "fst (filterByAmenities s (a # as))
                 = (if fst ?R then toResults (facilityIndex s) (setValues (sets (snd ?R) ?m)) else [])"
      using Some False fidx
      by (auto simp add: filterByAmenities_def mapGet_def newSet_def split: prod.splits bool.splits)
    have known: "\<forall>x \<in> set (filter ?P (setValues ?init)).
                   \<exists>f. map_of (facilityIndex s) x = Some f \<and> Facility.id' f = x"
      using fi init_set by auto
    have ids: "map FacilitySearchResult.id' (fst (filterByAmenities s (a # as)))
                 = filter ?P (setValues ?init)"
    proof (cases "fst ?R")
      case True
      with vals have v: "setValues (sets (snd ?R) ?m) = filter ?P (setValues ?init)" by simp
      show ?thesis
        unfolding res using True toResults_ids [OF known] by (simp add: v)
    next
      case False
      with vals show ?thesis unfolding res by simp
    qed
    show ?thesis
      unfolding ids using init_set init_distinct by auto
  qed
qed


section \<open>Filtering by amenities (C2, C8, C4)\<close>

lemma amenity_ids_known_new:
  assumes "x \<in> postings (amenityIndex (newFacilityService fs)) (sets (newFacilityService fs)) k"
  shows "\<exists>f. map_of (facilityIndex (newFacilityService fs)) x = Some f \<and> Facility.id' f = x"
  using assms facilityIndex_new_present [of _ fs] by (auto simp: amenity_postings_new)

lemma name_ids_known_new:
  assumes "x \<in> postings (nameIndex (newFacilityService fs)) (sets (newFacilityService fs)) k"
  shows "\<exists>f. map_of (facilityIndex (newFacilityService fs)) x = Some f \<and> Facility.id' f = x"
  using assms facilityIndex_new_present [of _ fs] by (auto simp: name_postings_new)

lemma filterByAmenities_new_ids:
  "FacilitySearchResult.id' ` set (fst (filterByAmenities (newFacilityService fs) (a # as)))
     = (\<Inter>k \<in> set (a # as).
          {Facility.id' f |f. f \<in> set fs \<and> toLowerCase k \<in> toLowerCase ` set (Facility.facilities f)})"
  using filterByAmenities_ids [where s = "newFacilityService fs" and a = a and as = as,
          OF refsOk_new amenity_ids_known_new]
  by (simp add: amenity_postings_new)

lemma filterByAmenities_new_distinct:
  "distinct (map FacilitySearchResult.id' (fst (filterByAmenities (newFacilityService fs) as)))"
proof (cases as)
  case Nil
  then show ?thesis by (simp add: filterByAmenities_def)
next
  case (Cons a as')
  with filterByAmenities_ids [where s = "newFacilityService fs" and a = a and as = as',
          OF refsOk_new amenity_ids_known_new]
  show ?thesis by simp
qed

text \<open>
  C2. For every record sequence and labels \<open>a\<close> and \<open>b\<close>, the identifiers returned for the
  two labels together are exactly those returned for \<open>a\<close> alone that are also returned for
  \<open>b\<close> alone.
\<close>

theorem C2_amenity_conjunction:
  "FacilitySearchResult.id' ` set (fst (filterByAmenities (newFacilityService fs) [a, b]))
     = FacilitySearchResult.id' ` set (fst (filterByAmenities (newFacilityService fs) [a]))
       \<inter> FacilitySearchResult.id' ` set (fst (filterByAmenities (newFacilityService fs) [b]))"
  by (simp only: filterByAmenities_new_ids) auto

text \<open>
  C8, as stated, fails for surrounding white space: a label is lower-cased when it is
  indexed and when it is looked up, and never trimmed. Both records have the amenity
  \<^verbatim>\<open>Pool\<close>; the label \<^verbatim>\<open>" Pool"\<close> finds neither.
\<close>

theorem C8_surrounding_whitespace_counterexample:
  "trim '' Pool'' = ''Pool''
   \<and> map FacilitySearchResult.id'
        (fst (filterByAmenities (newFacilityService [facilityF1, facilityF2]) [''Pool'']))
       = [''f1'', ''f2'']
   \<and> fst (filterByAmenities (newFacilityService [facilityF1, facilityF2]) ['' Pool'']) = []"
  by code_simp

text \<open>
  C8, amended: amenity lookup is insensitive to letter case, by lower-casing at index-build
  time and at query time, and white space counts. For a single label the identifiers
  returned are exactly those of the records that list an amenity whose lower-cased label is
  the lower-cased query label; so labels that differ only in letter case give the same
  identifiers, and a label that no record lists gives none.
\<close>

theorem C8_amenity_case_insensitive:
  "FacilitySearchResult.id' ` set (fst (filterByAmenities (newFacilityService fs) [a]))
     = {Facility.id' f |f. f \<in> set fs \<and> toLowerCase a \<in> toLowerCase ` set (Facility.facilities f)}"
  by (simp only: filterByAmenities_new_ids) auto

text \<open>
  C4, as stated, fails: the only set that \<^verbatim>\<open>filterByAmenities\<close> creates is the copy of the
  first posting set, and the loop over that copy deletes from it. After the query for
  \<^verbatim>\<open>Pool\<close> and \<^verbatim>\<open>Sauna\<close> the copy, which was \<^verbatim>\<open>{f1, f2}\<close>, holds an empty marker where
  \<^verbatim>\<open>f2\<close> was deleted during the iteration, and one set has been allocated in all.
\<close>

theorem C4_delete_while_iterating_counterexample:
  "sets (snd (filterByAmenities (newFacilityService [facilityF1, facilityF2]) [''Pool'', ''Sauna'']))
        (nextRef (newFacilityService [facilityF1, facilityF2]))
     = [Some ''f1'', None]
   \<and> nextRef (snd (filterByAmenities (newFacilityService [facilityF1, facilityF2]) [''Pool'', ''Sauna'']))
     = Suc (nextRef (newFacilityService [facilityF1, facilityF2]))
   \<and> retainLoop 1 0 0 ((\<lambda>r. [])(0 := [Some ''f1''], 1 := [Some ''f1'', Some ''f2'']))  1
     = [Some ''f1'', None]"
  by code_simp

lemma keepRest_cong:
  "(\<And>k r. map_of idx k = Some r \<Longrightarrow> h' r = h r) \<Longrightarrow> keepRest idx h' as M = keepRest idx h as M"
  by (induction as arbitrary: M) (auto split: option.splits)

lemma intersectRest_state:
  assumes "\<forall>k r. map_of (amenityIndex s) k = Some r \<longrightarrow> r \<noteq> m"
  shows "snd (intersectRest m as s)
           = s\<lparr>sets := (sets s)(m := keepRest (amenityIndex s) (sets s) as (sets s m))\<rparr>"
  using assms
proof (induction as arbitrary: s)
  case Nil
  show ?case by simp
next
  case (Cons a as)
  show ?case
  proof (cases "map_of (amenityIndex s) a")
    case None
    then show ?thesis by (simp add: mapGet_def)
  next
    case (Some r)
    from Cons.prems Some have rm: "m \<noteq> r" by blast
    let ?M = "keepIn (sets s r) (sets s m)"
    let ?s' = "s\<lparr>sets := (sets s)(m := ?M)\<rparr>"
    have s': "s\<lparr>sets := retainLoop m r 0 (sets s)\<rparr> = ?s'"
      by (simp add: retainLoop_eq [OF rm])
    have prem': "\<forall>k r. map_of (amenityIndex ?s') k = Some r \<longrightarrow> r \<noteq> m"
      using Cons.prems by simp
    have cong: "keepRest (amenityIndex s) ((sets s)(m := ?M)) as ?M
                  = keepRest (amenityIndex s) (sets s) as ?M"
      by (rule keepRest_cong) (use Cons.prems in auto)
    have e: "amenityIndex ?s' = amenityIndex s" "sets ?s' = (sets s)(m := ?M)" "sets ?s' m = ?M"
      by simp_all
    have upd: "?s'\<lparr>sets := (sets ?s')(m := K)\<rparr> = s\<lparr>sets := (sets s)(m := K)\<rparr>" for K
      by simp
    have "snd (intersectRest m as ?s')
            = ?s'\<lparr>sets := (sets ?s')(m := keepRest (amenityIndex ?s') (sets ?s') as (sets ?s' m))\<rparr>"
      by (rule Cons.IH [OF prem'])
    also have "\<dots> = s\<lparr>sets := (sets s)(m := keepRest (amenityIndex ?s') (sets ?s') as (sets ?s' m))\<rparr>"
      by (rule upd)
    also have "keepRest (amenityIndex ?s') (sets ?s') as (sets ?s' m)
                 = keepRest (amenityIndex s) (sets s) as ?M"
      unfolding e fun_upd_same by (rule cong)
    finally have ih: "snd (intersectRest m as ?s')
                = s\<lparr>sets := (sets s)(m := keepRest (amenityIndex s) (sets s) as ?M)\<rparr>" .
    have here: "?s' = s\<lparr>sets := (sets s)(m := ?M)\<rparr>" ..
    show ?thesis
    proof (cases "setSize (sets s r) = 0")
      case True
      with Some show ?thesis by (simp add: mapGet_def)
    next
      case False
      show ?thesis
      proof (cases "setSize ?M = 0")
        case True
        with Some False show ?thesis by (simp add: mapGet_def Let_def s' fun_upd_def)
      next
        case nz: False
        have "snd (intersectRest m (a # as) s) = snd (intersectRest m as ?s')"
          using Some False nz by (simp add: mapGet_def Let_def s')
        with ih Some False nz show ?thesis by (simp add: fun_upd_def)
      qed
    qed
  qed
qed

lemma filterByAmenities_state:
  assumes ok: "refsOk s"
  shows "snd (filterByAmenities s (a # as))
     = (case map_of (amenityIndex s) (toLowerCase a) of
          None \<Rightarrow> s
        | Some r \<Rightarrow>
            if setSize (sets s r) = 0 then s
            else s\<lparr>sets := (sets s)
                     (nextRef s :=
                        keepRest (amenityIndex s) (sets s) (map toLowerCase as)
                          (fold (\<lambda>x S. setAdd S x) (setValues (sets s r)) [])),
                   nextRef := Suc (nextRef s)\<rparr>)"
proof (cases "map_of (amenityIndex s) (toLowerCase a)")
  case None
  then show ?thesis by (simp add: filterByAmenities_def mapGet_def)
next
  case (Some r)
  show ?thesis
  proof (cases "setSize (sets s r) = 0")
    case True
    with Some show ?thesis by (simp add: filterByAmenities_def mapGet_def)
  next
    case False
    let ?init = "fold (\<lambda>x S. setAdd S x) (setValues (sets s r)) []"
    let ?m = "nextRef s"
    let ?s1 = "s\<lparr>sets := (sets s)(?m := ?init), nextRef := Suc ?m\<rparr>"
    let ?rest = "map toLowerCase as"
    have fresh: "\<forall>k r. map_of (amenityIndex ?s1) k = Some r \<longrightarrow> r \<noteq> ?m"
      using refsOk_lt(2) [OF ok] by fastforce
    have cong: "keepRest (amenityIndex s) ((sets s)(?m := ?init)) ?rest ?init
                  = keepRest (amenityIndex s) (sets s) ?rest ?init"
      by (rule keepRest_cong) (use refsOk_lt(2) [OF ok] in fastforce)
    have st: "snd (intersectRest ?m ?rest ?s1)
        = s\<lparr>sets := (sets s)(?m := keepRest (amenityIndex s) (sets s) ?rest ?init),
             nextRef := Suc ?m\<rparr>"
      using intersectRest_state [where as = ?rest, OF fresh] by (simp add: cong)
    have "snd (filterByAmenities s (a # as)) = snd (intersectRest ?m ?rest ?s1)"
      using Some False
      by (auto simp: filterByAmenities_def mapGet_def newSet_def split: prod.splits bool.splits)
    with st Some False show ?thesis by simp
  qed
qed

text \<open>
  C4, amended: for a non-empty sequence of labels, \<^verbatim>\<open>filterByAmenities\<close> creates nothing and
  changes nothing when the first label is unknown or its posting set is empty. Otherwise
  it creates exactly one set, the copy of the posting set of the first label, and computes
  the intersection in place on that copy: for each later label in turn, the loop iterates
  the copy and deletes from it, leaving the empty marker, every identifier that the posting
  set of the label does not have, and it stops at the first later label that is unknown, or
  has an empty posting set, or leaves the copy with no value. No index and no other set
  changes. One such step on two different set objects blanks exactly the entries that the
  other set does not have, and the values left are those of the copy that the other set
  has, in their order.
\<close>

theorem C4_intersection_in_place:
  "(let S = newFacilityService fs
    in snd (filterByAmenities S (a # as))
         = (case map_of (amenityIndex S) (toLowerCase a) of
              None \<Rightarrow> S
            | Some r \<Rightarrow>
                if setSize (sets S r) = 0 then S
                else S\<lparr>sets := (sets S)
                         (nextRef S :=
                            keepRest (amenityIndex S) (sets S) (map toLowerCase as)
                              (fold (\<lambda>x S. setAdd S x) (setValues (sets S r)) [])),
                       nextRef := Suc (nextRef S)\<rparr>))
   \<and> (matchingIds \<noteq> amenityIds
        \<longrightarrow> retainLoop matchingIds amenityIds 0 h
              = h(matchingIds := keepIn (h amenityIds) (h matchingIds)))
   \<and> setValues (keepIn A M) = filter (\<lambda>x. setHas A x) (setValues M)"
  using filterByAmenities_state [OF refsOk_new, of fs a as]
  by (simp add: Let_def retainLoop_eq setValues_keepIn setHas_iff)

text \<open>
  The amended C4 on the two example records and the labels \<^verbatim>\<open>Pool\<close> and \<^verbatim>\<open>Sauna\<close>: the copy
  \<^verbatim>\<open>{f1, f2}\<close> of the posting set of \<^verbatim>\<open>pool\<close> is the eighth set object, and the step for
  \<^verbatim>\<open>sauna\<close> leaves the empty marker in the place of \<^verbatim>\<open>f2\<close>.
\<close>

theorem C4_intersection_in_place_witness:
  "map_of (amenityIndex (newFacilityService [facilityF1, facilityF2])) (toLowerCase ''Pool'') = Some 3
   \<and> sets (newFacilityService [facilityF1, facilityF2]) 3 = [Some ''f1'', Some ''f2'']
   \<and> nextRef (newFacilityService [facilityF1, facilityF2]) = 7
   \<and> snd (filterByAmenities (newFacilityService [facilityF1, facilityF2]) [''Pool'', ''Sauna''])
       = (newFacilityService [facilityF1, facilityF2])
           \<lparr>sets := (sets (newFacilityService [facilityF1, facilityF2]))(7 := [Some ''f1'', None]),
            nextRef := 8\<rparr>
   \<and> retainLoop 1 0 0 ((\<lambda>r. [])(0 := [Some ''f1''], 1 := [Some ''f1'', Some ''f2'']))
       = ((\<lambda>r. [])(0 := [Some ''f1''], 1 := [Some ''f1'', Some ''f2'']))
           (1 := keepIn [Some ''f1''] [Some ''f1'', Some ''f2''])"
proof -
  let ?S = "newFacilityService [facilityF1, facilityF2]"
  let ?h = "(\<lambda>r::ref. []::SetData)(0 := [Some ''f1''], 1 := [Some ''f1'', Some ''f2''])"
  have a: "map_of (amenityIndex ?S) (toLowerCase ''Pool'') = Some 3" by code_simp
  have b: "sets ?S 3 = [Some ''f1'', Some ''f2'']" by code_simp
  have c: "nextRef ?S = 7" by code_simp
  have sz: "(setSize (sets ?S 3) = 0) = False" by code_simp
  have d: "keepRest (amenityIndex ?S) (sets ?S) (map toLowerCase [''Sauna''])
             (fold (\<lambda>x S. setAdd S x) (setValues (sets ?S 3)) [])
           = [Some ''f1'', None]"
    by code_simp
  have n: "Suc 7 = 8" by simp
  note t = C4_intersection_in_place [where fs = "[facilityF1, facilityF2]" and a = "''Pool''" and as = "[''Sauna'']"
      and matchingIds = 1 and amenityIds = 0 and h = ?h, unfolded Let_def]
  have e: "snd (filterByAmenities ?S [''Pool'', ''Sauna''])
       = ?S\<lparr>sets := (sets ?S)(7 := [Some ''f1'', None]), nextRef := 8\<rparr>"
    by (simp only: t [THEN conjunct1] a option.case sz if_False d c n)
  have ne: "(1::nat) \<noteq> 0" by simp
  have f: "retainLoop 1 0 0 ?h = ?h(1 := keepIn (?h 0) (?h 1))"
    by (rule mp [OF t [THEN conjunct2, THEN conjunct1] ne])
  have g: "?h 0 = [Some ''f1'']" "?h 1 = [Some ''f1'', Some ''f2'']" by simp_all
  from a b c e f [unfolded g] show ?thesis by blast
qed


section \<open>Matching query tokens\<close>

lemma addAll_sameBut: "sameBut m s (addAll r m s)"
  by (simp add: addAll_eq sameBut_sets_update)

lemma addAll_at:
  "sets (addAll r m s) m = fold (\<lambda>x S. setAdd S x) (setValues (sets s r)) (sets s m)"
  by (simp add: addAll_eq)

lemma addAll_values: 
  "set (setValues (sets (addAll r m s) m)) = set (setValues (sets s m)) \<union> set (setValues (sets s r))"
  by (simp add: addAll_at fold_setAdd_values)

lemma addAll_distinct:
  "distinct (setValues (sets s m)) \<Longrightarrow> distinct (setValues (sets (addAll r m s) m))"
  by (simp add: addAll_at fold_setAdd_distinct)

lemma scan_sameBut:
  "sameBut m s (fold (\<lambda>(k, r) t. if C k then addAll r m t else t) idx s)"
proof (induction idx arbitrary: s)
  case Nil
  show ?case by (simp add: sameBut_refl)
next
  case (Cons e idx)
  obtain k r where e: "e = (k, r)" by (cases e)
  have "sameBut m s (if C k then addAll r m s else s)"
    by (simp add: addAll_sameBut sameBut_refl)
  from sameBut_trans [OF this Cons.IH] show ?case by (simp add: e)
qed

lemma scan_distinct:
  "distinct (setValues (sets s m)) \<Longrightarrow>
   distinct (setValues (sets (fold (\<lambda>(k, r) t. if C k then addAll r m t else t) idx s) m))"
proof (induction idx arbitrary: s)
  case Nil
  then show ?case by simp
next
  case (Cons e idx)
  obtain k r where e: "e = (k, r)" by (cases e)
  have "distinct (setValues (sets (if C k then addAll r m s else s) m))"
    using Cons.prems by (simp add: addAll_distinct)
  from Cons.IH [OF this] show ?case by (simp add: e)
qed

lemma scan_grows:
  "set (setValues (sets s m))
     \<subseteq> set (setValues (sets (fold (\<lambda>(k, r) t. if C k then addAll r m t else t) idx s) m))"
proof (induction idx arbitrary: s)
  case Nil
  show ?case by simp
next
  case (Cons e idx)
  obtain k r where e: "e = (k, r)" by (cases e)
  have "set (setValues (sets s m)) \<subseteq> set (setValues (sets (if C k then addAll r m s else s) m))"
    by (auto simp: addAll_values)
  with Cons.IH [of "if C k then addAll r m s else s"] show ?case
    by (auto simp: e)
qed

lemma scan_covers:
  "(k, r) \<in> set idx \<Longrightarrow> C k \<Longrightarrow> r \<noteq> m \<Longrightarrow>
   set (setValues (sets s r))
     \<subseteq> set (setValues (sets (fold (\<lambda>(k, r) t. if C k then addAll r m t else t) idx s) m))"
proof (induction idx arbitrary: s)
  case Nil
  then show ?case by simp
next
  case (Cons e idx)
  obtain k' r' where e: "e = (k', r')" by (cases e)
  let ?s' = "if C k' then addAll r' m s else s"
  have same: "sets ?s' r = sets s r"
    using Cons.prems(3) sameBut_fields(6) [OF addAll_sameBut] by simp
  show ?case
  proof (cases "(k, r) = (k', r')")
    case True
    with Cons.prems have "set (setValues (sets s r)) \<subseteq> set (setValues (sets ?s' m))"
      by (auto simp: addAll_values)
    with scan_grows [of ?s' m C idx] show ?thesis
      by (auto simp: e)
  next
    case False
    with Cons.prems e have "(k, r) \<in> set idx" by auto
    from Cons.IH [OF this Cons.prems(2,3), of ?s'] show ?thesis
      by (simp add: e same)
  qed
qed

lemma matchToken_eq:
  "matchToken m q s =
     fold (\<lambda>(k, r) t. if k \<noteq> q \<and> startsWith k q then addAll r m t else t) (nameIndex s)
       (case map_of (nameIndex s) q of Some r \<Rightarrow> addAll r m s | None \<Rightarrow> s)"
proof -
  have "nameIndex (case map_of (nameIndex s) q of Some r \<Rightarrow> addAll r m s | None \<Rightarrow> s) = nameIndex s"
    using sameBut_fields(3) [OF addAll_sameBut] by (simp split: option.splits)
  then show ?thesis
    by (simp add: matchToken_def mapGet_def Let_def)
qed

lemma exact_sameBut:
  "sameBut m s (case map_of (nameIndex s) q of Some r \<Rightarrow> addAll r m s | None \<Rightarrow> s)"
  by (simp add: addAll_sameBut sameBut_refl split: option.splits)

lemma matchToken_sameBut: "sameBut m s (matchToken m q s)"
  unfolding matchToken_eq by (rule sameBut_trans [OF exact_sameBut scan_sameBut])

lemma matchToken_distinct:
  "distinct (setValues (sets s m)) \<Longrightarrow> distinct (setValues (sets (matchToken m q s) m))"
  unfolding matchToken_eq
  by (rule scan_distinct) (simp add: addAll_distinct split: option.splits)

lemma matchToken_grows:
  "set (setValues (sets s m)) \<subseteq> set (setValues (sets (matchToken m q s) m))"
proof -
  let ?s1 = "case map_of (nameIndex s) q of Some r \<Rightarrow> addAll r m s | None \<Rightarrow> s"
  have "set (setValues (sets s m)) \<subseteq> set (setValues (sets ?s1 m))"
    by (auto simp: addAll_values split: option.splits)
  with scan_grows [of ?s1 m "\<lambda>k. k \<noteq> q \<and> startsWith k q" "nameIndex s"] show ?thesis
    unfolding matchToken_eq by blast
qed

lemma matchToken_covers:
  assumes "map_of (nameIndex s) k = Some r" and "startsWith k q" and "r \<noteq> m"
  shows "set (setValues (sets s r)) \<subseteq> set (setValues (sets (matchToken m q s) m))"
proof -
  let ?s1 = "case map_of (nameIndex s) q of Some r \<Rightarrow> addAll r m s | None \<Rightarrow> s"
  let ?C = "\<lambda>k. k \<noteq> q \<and> startsWith k q"
  have same: "sets ?s1 r = sets s r"
    using sameBut_fields(6) [OF exact_sameBut assms(3)] by simp
  show ?thesis
  proof (cases "k = q")
    case True
    with assms(1) have "set (setValues (sets s r)) \<subseteq> set (setValues (sets ?s1 m))"
      by (auto simp: addAll_values)
    with scan_grows [of ?s1 m ?C "nameIndex s"] show ?thesis
      unfolding matchToken_eq by blast
  next
    case False
    from assms(1) have "(k, r) \<in> set (nameIndex s)" by (rule map_of_SomeD)
    from scan_covers [of k r "nameIndex s" ?C m ?s1, OF this _ assms(3)] False assms(2)
    show ?thesis
      unfolding matchToken_eq by (simp add: same)
  qed
qed

lemma matchTokens_sameBut: "sameBut m s (fold (matchToken m) qs s)"
proof (induction qs arbitrary: s)
  case Nil
  show ?case by (simp add: sameBut_refl)
next
  case (Cons q qs)
  from sameBut_trans [OF matchToken_sameBut Cons.IH] show ?case by simp
qed

lemma matchTokens_distinct:
  "distinct (setValues (sets s m)) \<Longrightarrow> distinct (setValues (sets (fold (matchToken m) qs s) m))"
  by (induction qs arbitrary: s) (simp_all add: matchToken_distinct)

lemma matchTokens_grows:
  "set (setValues (sets s m)) \<subseteq> set (setValues (sets (fold (matchToken m) qs s) m))"
proof (induction qs arbitrary: s)
  case Nil
  show ?case by simp
next
  case (Cons q qs)
  from matchToken_grows [of s m q] Cons.IH [of "matchToken m q s"] show ?case
    by auto
qed

lemma matchTokens_covers:
  assumes "q \<in> set qs" and "map_of (nameIndex s) k = Some r" and "startsWith k q" and "r \<noteq> m"
  shows "set (setValues (sets s r)) \<subseteq> set (setValues (sets (fold (matchToken m) qs s) m))"
  using assms
proof (induction qs arbitrary: s)
  case Nil
  then show ?case by simp
next
  case (Cons q' qs)
  let ?s' = "matchToken m q' s"
  have idx: "nameIndex ?s' = nameIndex s" and same: "sets ?s' r = sets s r"
    using sameBut_fields(3,6) [OF matchToken_sameBut] Cons.prems(4) by simp_all
  show ?case
  proof (cases "q = q'")
    case True
    from matchToken_covers [OF Cons.prems(2) _ Cons.prems(4), of q'] True Cons.prems(3)
    have "set (setValues (sets s r)) \<subseteq> set (setValues (sets ?s' m))" by simp
    with matchTokens_grows [of ?s' m qs] show ?thesis by auto
  next
    case False
    with Cons.prems(1) have "q \<in> set qs" by simp
    from Cons.IH [OF this _ Cons.prems(3,4), of ?s'] Cons.prems(2) show ?thesis
      by (simp add: idx same)
  qed
qed


section \<open>Tokens and prefixes\<close>

lemma toLowerChar_idem: "toLowerChar (toLowerChar c) = toLowerChar c"
  by (simp add: toLowerChar_def)

lemma toLowerCase_idem: "toLowerCase (toLowerCase s) = toLowerCase s"
  by (simp add: toLowerCase_def toLowerChar_idem)

lemma splitWs_pieces:
  "w \<in> set (splitWs s) \<Longrightarrow> set w \<subseteq> set s \<and> (\<forall>c \<in> set w. \<not> isSpace c)"
proof (induction s arbitrary: w rule: splitWs.induct)
  case 1
  then show ?case by simp
next
  case (2 c cs)
  show ?case
  proof (cases "isSpace c")
    case True
    with "2.prems" have "w = [] \<or> w \<in> set (splitWs (dropWhile isSpace cs))" by simp
    then show ?thesis
    proof
      assume "w = []" then show ?thesis by simp
    next
      assume "w \<in> set (splitWs (dropWhile isSpace cs))"
      from "2.IH"(1) [OF True this] set_dropWhileD [of _ isSpace cs] show ?thesis by auto
    qed
  next
    case False
    show ?thesis
    proof (cases "splitWs cs")
      case Nil
      with False "2.prems" show ?thesis by simp
    next
      case (Cons v vs)
      with False "2.prems" have "w = c # v \<or> w \<in> set vs" by simp
      then show ?thesis
      proof
        assume w: "w = c # v"
        from "2.IH"(2) [OF False, of v] Cons have "set v \<subseteq> set cs \<and> (\<forall>c \<in> set v. \<not> isSpace c)"
          by simp
        with w False show ?thesis by auto
      next
        assume "w \<in> set vs"
        with "2.IH"(2) [OF False, of w] Cons show ?thesis by auto
      qed
    qed
  qed
qed

lemma splitWs_no_space: "\<forall>c \<in> set s. \<not> isSpace c \<Longrightarrow> splitWs s = [s]"
  by (induction s) auto

lemma trim_no_space: "\<forall>c \<in> set s. \<not> isSpace c \<Longrightarrow> trim s = s"
proof -
  assume a: "\<forall>c \<in> set s. \<not> isSpace c"
  then have "dropWhile isSpace s = s" by (cases s) auto
  moreover from a have "dropWhile isSpace (rev s) = rev s" by (cases "rev s") (auto simp: rev_eq_Cons_iff)
  ultimately show ?thesis by (simp add: trim_def)
qed

lemma startsWith_iff: "startsWith s p = (\<exists>r. s = p @ r)"
  by (induction s p rule: startsWith.induct) auto

lemma token_props:
  assumes "t \<in> set (tokenizeName n)"
  shows "t \<noteq> [] \<and> (\<forall>c \<in> set t. \<not> isSpace c) \<and> toLowerCase t = t"
proof -
  from assms have mem: "t \<in> set (splitWs (toLowerCase n))" and ne: "t \<noteq> []"
    by (auto simp: tokenizeName_def Let_def)
  from splitWs_pieces [OF mem] have sub: "set t \<subseteq> set (toLowerCase n)" and ns: "\<forall>c \<in> set t. \<not> isSpace c"
    by auto
  have "toLowerChar c = c" if "c \<in> set t" for c
  proof -
    from that sub obtain d where "c = toLowerChar d" by (auto simp: toLowerCase_def)
    then show ?thesis by (simp add: toLowerChar_idem)
  qed
  then have "toLowerCase t = t" by (simp add: toLowerCase_def map_idI)
  with ne ns show ?thesis by simp
qed

lemma prefix_query:
  assumes "t \<in> set (tokenizeName n)" and "p \<noteq> []" and "startsWith t p"
  shows "trim p \<noteq> [] \<and> trim (toLowerCase p) = p \<and> filter (\<lambda>t. length t > 0) (splitWs p) = [p]"
proof -
  from assms(3) obtain r where t: "t = p @ r" by (auto simp: startsWith_iff)
  from token_props [OF assms(1)] t have ns: "\<forall>c \<in> set p. \<not> isSpace c" and lo: "toLowerCase p = p"
    by (auto simp: toLowerCase_def)
  from ns assms(2) show ?thesis
    by (simp add: lo trim_no_space splitWs_no_space)
qed


section \<open>Searching by name (C3, C10) and the state after a query (C9)\<close>

lemma searchByName_empty:
  "query = [] \<or> trim query = [] \<Longrightarrow> searchByName lc s query = ([], s)"
  by (auto simp: searchByName_def)

lemma searchByName_nonempty:
  assumes "query \<noteq> []" and "trim query \<noteq> []"
  shows "searchByName lc s query =
     (sortBy (rankCompare lc (trim (toLowerCase query)))
        (toResults (facilityIndex s)
           (setValues (sets (fold (matchToken (nextRef s))
                               (filter (\<lambda>t. length t > 0) (splitWs (trim (toLowerCase query))))
                               (s\<lparr>sets := (sets s)(nextRef s := []), nextRef := Suc (nextRef s)\<rparr>))
                         (nextRef s)))),
      fold (matchToken (nextRef s))
        (filter (\<lambda>t. length t > 0) (splitWs (trim (toLowerCase query))))
        (s\<lparr>sets := (sets s)(nextRef s := []), nextRef := Suc (nextRef s)\<rparr>))"
proof -
  let ?s1 = "s\<lparr>sets := (sets s)(nextRef s := []), nextRef := Suc (nextRef s)\<rparr>"
  let ?qs = "filter (\<lambda>t. length t > 0) (splitWs (trim (toLowerCase query)))"
  have "facilityIndex (fold (matchToken (nextRef s)) ?qs ?s1) = facilityIndex s"
    using sameBut_fields(1) [OF matchTokens_sameBut [of "nextRef s" ?s1 ?qs]] by simp
  with assms show ?thesis
    by (simp add: searchByName_def newSet_def Let_def)
qed

lemma toResults_mem:
  "x \<in> set xs \<Longrightarrow> map_of fi x = Some f \<Longrightarrow>
   Facility.id' f \<in> FacilitySearchResult.id' ` set (toResults fi xs)"
  by (induction xs) (auto simp: mapGet_def split: option.splits)

lemma toResults_ids_sub:
  assumes "\<And>x f. map_of fi x = Some f \<Longrightarrow> Facility.id' f = x"
  shows "FacilitySearchResult.id' ` set (toResults fi xs) \<subseteq> set xs \<inter> fst ` set fi"
proof (induction xs)
  case Nil
  show ?case by simp
next
  case (Cons x xs)
  show ?case
  proof (cases "map_of fi x")
    case None
    with Cons show ?thesis by (auto simp: mapGet_def)
  next
    case (Some f)
    from assms [OF Some] map_of_SomeD [OF Some] have "Facility.id' f = x" "x \<in> fst ` set fi"
      by (auto simp: rev_image_eqI)
    with Some Cons show ?thesis by (auto simp: mapGet_def)
  qed
qed

lemma toResults_distinct:
  assumes "\<And>x f. map_of fi x = Some f \<Longrightarrow> Facility.id' f = x" and "distinct xs"
  shows "distinct (map FacilitySearchResult.id' (toResults fi xs))"
  using assms(2)
proof (induction xs)
  case Nil
  show ?case by simp
next
  case (Cons x xs)
  show ?case
  proof (cases "map_of fi x")
    case None
    with Cons show ?thesis by (simp add: mapGet_def)
  next
    case (Some f)
    from assms(1) [OF Some] have "Facility.id' f = x" .
    moreover from toResults_ids_sub [of fi xs] assms(1) Cons.prems
    have "x \<notin> FacilitySearchResult.id' ` set (toResults fi xs)" by auto
    ultimately show ?thesis using Some Cons by (simp add: mapGet_def)
  qed
qed

lemma facilityIndex_new_keys: "fst ` set (facilityIndex (newFacilityService fs)) = Facility.id' ` set fs"
proof -
  have "(k \<in> fst ` set (facilityIndex (newFacilityService fs))) = (k \<in> Facility.id' ` set fs)" for k
  proof -
    have "(k \<in> fst ` set (facilityIndex (newFacilityService fs)))
            = (map_of (facilityIndex (newFacilityService fs)) k \<noteq> None)"
      by (simp add: map_of_eq_None_iff)
    also have "\<dots> = (k \<in> Facility.id' ` set fs)"
      by (auto simp: facilityIndex_new find_rev_None)
    finally show ?thesis .
  qed
  then show ?thesis by blast
qed

lemma searchByName_values_distinct:
  "distinct (setValues (sets (fold (matchToken (nextRef s)) qs
       (s\<lparr>sets := (sets s)(nextRef s := []), nextRef := Suc (nextRef s)\<rparr>)) (nextRef s)))"
  by (rule matchTokens_distinct) simp

text \<open>
  C3. A record of the input, a token of its name and a non-empty prefix of that token: the
  search for the prefix returns a projection that carries the identifier of the record.
\<close>

theorem C3_prefix_query_finds_record:
  assumes "f \<in> set fs"
    and "t \<in> set (tokenizeName (Facility.name f))"
    and "p \<noteq> []"
    and "startsWith t p"
  shows "Facility.id' f \<in> FacilitySearchResult.id' ` set (fst (searchByName lc (newFacilityService fs) p))"
proof -
  let ?S = "newFacilityService fs"
  let ?m = "nextRef ?S"
  let ?s1 = "?S\<lparr>sets := (sets ?S)(?m := []), nextRef := Suc ?m\<rparr>"
  from prefix_query [OF assms(2,3,4)]
  have q: "trim p \<noteq> []" "trim (toLowerCase p) = p" "filter (\<lambda>t. t \<noteq> []) (splitWs p) = [p]"
    by simp_all
  have res: "fst (searchByName lc ?S p)
      = sortBy (rankCompare lc p) (toResults (facilityIndex ?S) (setValues (sets (matchToken ?m p ?s1) ?m)))"
    using searchByName_nonempty [OF assms(3) q(1), of lc ?S] by (simp add: q)
  from assms(1,2) have "Facility.id' f \<in> postings (nameIndex ?S) (sets ?S) t"
    by (auto simp: name_postings_new)
  then obtain r where r: "map_of (nameIndex ?S) t = Some r" "Facility.id' f \<in> set (setValues (sets ?S r))"
    by (auto simp: postings_def split: option.splits)
  from refsOk_lt(1) [OF refsOk_new r(1)] have rm: "r \<noteq> ?m" by simp
  have "map_of (nameIndex ?s1) t = Some r" using r(1) by simp
  from matchToken_covers [OF this assms(4) rm] r(2) rm
  have mem: "Facility.id' f \<in> set (setValues (sets (matchToken ?m p ?s1) ?m))" by auto
  from facilityIndex_new_present [OF assms(1)] obtain f'
    where f': "map_of (facilityIndex ?S) (Facility.id' f) = Some f'" "Facility.id' f' = Facility.id' f"
    by blast
  from toResults_mem [OF mem f'(1)] f'(2) show ?thesis
    by (simp add: res set_sortBy)
qed

text \<open>The hypotheses of C3 hold for the token \<^verbatim>\<open>gym\<close> of the second record and its prefix \<^verbatim>\<open>gy\<close>.\<close>

theorem C3_prefix_query_finds_record_witness:
  "facilityF2 \<in> set [facilityF1, facilityF2]
   \<and> ''gym'' \<in> set (tokenizeName (Facility.name facilityF2))
   \<and> ''gy'' \<noteq> []
   \<and> startsWith ''gym'' ''gy''
   \<and> Facility.id' facilityF2
       \<in> FacilitySearchResult.id'
           ` set (fst (searchByName (\<lambda>a b. 0) (newFacilityService [facilityF1, facilityF2]) ''gy''))"
proof -
  have h1: "facilityF2 \<in> set [facilityF1, facilityF2]" by simp
  have h2: "''gym'' \<in> set (tokenizeName (Facility.name facilityF2))" by code_simp
  have h3: "''gy'' \<noteq> []" by simp
  have h4: "startsWith ''gym'' ''gy''" by simp
  from C3_prefix_query_finds_record [OF h1 h2 h3 h4] h1 h2 h3 h4 show ?thesis by blast
qed

lemma searchByName_new_distinct:
  "distinct (map FacilitySearchResult.id' (fst (searchByName lc (newFacilityService fs) q)))"
proof (cases "q = [] \<or> trim q = []")
  case True
  then show ?thesis by (simp add: searchByName_empty)
next
  case False
  then have ne: "q \<noteq> []" "trim q \<noteq> []" by simp_all
  have cons: "\<And>x f. map_of (facilityIndex (newFacilityService fs)) x = Some f \<Longrightarrow> Facility.id' f = x"
    using facilityIndex_new_Some by blast
  show ?thesis
    unfolding searchByName_nonempty [OF ne] fst_conv distinct_map_sortBy
    by (rule toResults_distinct [OF cons searchByName_values_distinct])
qed

lemma searchByName_new_ids_sub:
  "FacilitySearchResult.id' ` set (fst (searchByName lc (newFacilityService fs) q))
     \<subseteq> Facility.id' ` set fs"
proof (cases "q = [] \<or> trim q = []")
  case True
  then show ?thesis by (simp add: searchByName_empty)
next
  case False
  then have ne: "q \<noteq> []" "trim q \<noteq> []" by simp_all
  have cons: "\<And>x f. map_of (facilityIndex (newFacilityService fs)) x = Some f \<Longrightarrow> Facility.id' f = x"
    using facilityIndex_new_Some by blast
  show ?thesis
    unfolding searchByName_nonempty [OF ne] fst_conv set_sortBy
    using toResults_ids_sub [where fi = "facilityIndex (newFacilityService fs)", OF cons]
    by (auto simp: facilityIndex_new_keys)
qed

lemma filterByAmenities_new_ids_sub:
  "FacilitySearchResult.id' ` set (fst (filterByAmenities (newFacilityService fs) as))
     \<subseteq> Facility.id' ` set fs"
proof (cases as)
  case Nil
  then show ?thesis by (simp add: filterByAmenities_def)
next
  case (Cons a as')
  show ?thesis unfolding Cons filterByAmenities_new_ids by auto
qed

text \<open>
  C10. In the result of \<^verbatim>\<open>searchByName\<close> and in the result of \<^verbatim>\<open>filterByAmenities\<close> no
  identifier occurs twice, and every identifier is the identifier of an input record.
\<close>

theorem C10_results_distinct_and_stored:
  "distinct (map FacilitySearchResult.id' (fst (searchByName lc (newFacilityService fs) q)))
   \<and> distinct (map FacilitySearchResult.id' (fst (filterByAmenities (newFacilityService fs) as)))
   \<and> FacilitySearchResult.id' ` set (fst (searchByName lc (newFacilityService fs) q))
       \<subseteq> Facility.id' ` set fs
   \<and> FacilitySearchResult.id' ` set (fst (filterByAmenities (newFacilityService fs) as))
       \<subseteq> Facility.id' ` set fs"
  by (simp only: searchByName_new_distinct filterByAmenities_new_distinct
        searchByName_new_ids_sub filterByAmenities_new_ids_sub simp_thms)

text \<open>
  C10 on the two example records and the query \<^verbatim>\<open>city c\<close>: both query tokens match both
  records, and each identifier is returned once.
\<close>

theorem C10_results_distinct_and_stored_witness:
  "distinct (map FacilitySearchResult.id'
      (fst (searchByName codeUnitCompare (newFacilityService [facilityF1, facilityF2]) ''city c'')))
   \<and> map FacilitySearchResult.id'
       (fst (searchByName codeUnitCompare (newFacilityService [facilityF1, facilityF2]) ''city c''))
     = [''f1'', ''f2'']"
proof -
  have "map FacilitySearchResult.id'
       (fst (searchByName codeUnitCompare (newFacilityService [facilityF1, facilityF2]) ''city c''))
     = [''f1'', ''f2'']"
    by code_simp
  with C10_results_distinct_and_stored
         [of codeUnitCompare "[facilityF1, facilityF2]" "''city c''" "[]"]
  show ?thesis by blast
qed

lemma indexSets_fresh: "refsOk s \<Longrightarrow> r \<in> indexSets s \<Longrightarrow> r \<noteq> nextRef s"
  by (auto simp: refsOk_def indexSets_def)

lemma preserved_via_fresh:
  assumes "refsOk s" and "sameBut (nextRef s) (s\<lparr>sets := (sets s)(nextRef s := M), nextRef := n\<rparr>) t"
  shows "preserved s t"
proof -
  note f = sameBut_fields [OF assms(2)]
  have "sets t r = sets s r" if "r \<in> indexSets s" for r
    using f(6) [of r] indexSets_fresh [OF assms(1) that] by simp
  with f(1-3,5) show ?thesis by (simp add: preserved_def)
qed

lemma preserved_refl: "preserved s s"
  by (simp add: preserved_def)

lemma searchByName_preserved: "refsOk s \<Longrightarrow> preserved s (snd (searchByName lc s q))"
proof (cases "q = [] \<or> trim q = []")
  case True
  then show ?thesis by (simp add: searchByName_empty preserved_refl)
next
  case False
  assume ok: "refsOk s"
  from False have ne: "q \<noteq> []" "trim q \<noteq> []" by simp_all
  show ?thesis
    unfolding searchByName_nonempty [OF ne] snd_conv
    by (rule preserved_via_fresh [OF ok matchTokens_sameBut])
qed

lemma filterByAmenities_preserved: "refsOk s \<Longrightarrow> preserved s (snd (filterByAmenities s as))"
proof -
  assume ok: "refsOk s"
  show ?thesis
  proof (cases "map toLowerCase as")
    case Nil
    then show ?thesis by (simp add: filterByAmenities_def preserved_refl)
  next
    case (Cons a rest)
    show ?thesis
    proof (cases "map_of (amenityIndex s) a")
      case None
      with Cons show ?thesis by (simp add: filterByAmenities_def mapGet_def preserved_refl)
    next
      case (Some r)
      show ?thesis
      proof (cases "setSize (sets s r) = 0")
        case True
        with Cons Some show ?thesis by (simp add: filterByAmenities_def mapGet_def preserved_refl)
      next
        case False
        let ?init = "fold (\<lambda>x S. setAdd S x) (setValues (sets s r)) []"
        let ?s1 = "s\<lparr>sets := (sets s)(nextRef s := ?init), nextRef := Suc (nextRef s)\<rparr>"
        have p: "preserved s (snd (intersectRest (nextRef s) rest ?s1))"
          by (rule preserved_via_fresh [OF ok intersectRest_frame])
        have "snd (filterByAmenities s as) = snd (intersectRest (nextRef s) rest ?s1)"
          using Cons Some False
          by (auto simp: filterByAmenities_def mapGet_def newSet_def split: prod.splits bool.splits)
        with p show ?thesis by simp
      qed
    qed
  qed
qed

lemma preserved_getById: "preserved s t \<Longrightarrow> getById t x = getById s x"
  by (simp add: preserved_def getById_def)

text \<open>
  C9. A query on a constructed service leaves the record sequence, the id index, the
  name-token index and the amenity index as they were, and leaves the data of every set
  object of the two token indexes as it was: all that \<^verbatim>\<open>searchByName\<close> adds to and all that
  \<^verbatim>\<open>filterByAmenities\<close> deletes from is the set created by the query itself. \<^verbatim>\<open>getById\<close> has
  no assignment and no call that changes an object, so it has no state after it; what it
  returns is the same before and after the other two queries.
\<close>

theorem C9_queries_are_reads:
  "preserved (newFacilityService fs) (snd (searchByName lc (newFacilityService fs) q))
   \<and> preserved (newFacilityService fs) (snd (filterByAmenities (newFacilityService fs) as))
   \<and> getById (snd (searchByName lc (newFacilityService fs) q)) x = getById (newFacilityService fs) x
   \<and> getById (snd (filterByAmenities (newFacilityService fs) as)) x
       = getById (newFacilityService fs) x"
  using searchByName_preserved [OF refsOk_new, of fs lc q]
    filterByAmenities_preserved [OF refsOk_new, of fs as]
  by (simp add: preserved_getById)

text \<open>
  C9 on the two example records, whose token indexes own seven set objects: the search
  for \<^verbatim>\<open>city\<close> and the filter for \<^verbatim>\<open>Pool\<close> and \<^verbatim>\<open>Sauna\<close> each allocate one more set and leave
  the seven as they were.
\<close>

theorem C9_queries_are_reads_witness:
  "indexSets (newFacilityService [facilityF1, facilityF2]) = {0, 1, 2, 3, 4, 5, 6}
   \<and> nextRef (snd (filterByAmenities (newFacilityService [facilityF1, facilityF2]) [''Pool'', ''Sauna'']))
       = 8
   \<and> preserved (newFacilityService [facilityF1, facilityF2])
        (snd (searchByName (\<lambda>a b. 0) (newFacilityService [facilityF1, facilityF2]) ''city''))
   \<and> preserved (newFacilityService [facilityF1, facilityF2])
        (snd (filterByAmenities (newFacilityService [facilityF1, facilityF2]) [''Pool'', ''Sauna'']))"
proof -
  have a: "indexSets (newFacilityService [facilityF1, facilityF2]) = {0, 1, 2, 3, 4, 5, 6}"
    by code_simp
  have b: "nextRef (snd (filterByAmenities (newFacilityService [facilityF1, facilityF2]) [''Pool'', ''Sauna''])) = 8"
    by code_simp
  from C9_queries_are_reads [of "[facilityF1, facilityF2]" "\<lambda>a b. 0" "''city''" "[''Pool'', ''Sauna'']"] a b
  show ?thesis by simp
qed


section \<open>The cost of the prefix lookup (C6)\<close>

lemma map_of_None_keys: "(map_of idx k = None) = (k \<notin> fst ` set idx)"
  by (simp add: map_of_eq_None_iff)

lemma addToNameIndex_keys:
  "fst ` set (nameIndex (addToNameIndex fid tok s)) = insert tok (fst ` set (nameIndex s))
   \<and> (distinct (map fst (nameIndex s)) \<longrightarrow> distinct (map fst (nameIndex (addToNameIndex fid tok s))))"
proof (cases "map_of (nameIndex s) tok")
  case None
  then have "tok \<notin> fst ` set (nameIndex s)" by (simp add: map_of_None_keys)
  then show ?thesis by (simp add: addToNameIndex_absent [OF None])
next
  case (Some r)
  then have "tok \<in> fst ` set (nameIndex s)"
    using map_of_None_keys [of "nameIndex s" tok] by simp
  then show ?thesis by (auto simp: addToNameIndex_present [OF Some])
qed

lemma fold_addToNameIndex_keys:
  "fst ` set (nameIndex (fold (addToNameIndex fid) toks s)) = set toks \<union> fst ` set (nameIndex s)
   \<and> (distinct (map fst (nameIndex s))
        \<longrightarrow> distinct (map fst (nameIndex (fold (addToNameIndex fid) toks s))))"
proof (induction toks arbitrary: s)
  case Nil
  show ?case by simp
next
  case (Cons t toks)
  from Cons.IH [of "addToNameIndex fid t s"] addToNameIndex_keys [of fid t s]
  show ?case by auto
qed

lemma indexFacility_keys:
  "fst ` set (nameIndex (indexFacility f s))
     = set (tokenizeName (Facility.name f)) \<union> fst ` set (nameIndex s)
   \<and> (distinct (map fst (nameIndex s)) \<longrightarrow> distinct (map fst (nameIndex (indexFacility f s))))"
  using fold_addToNameIndex_keys
    [of "Facility.id' f" "tokenizeName (Facility.name f)"
        "s\<lparr>facilityIndex := mapSet (facilityIndex s) (Facility.id' f) f\<rparr>"]
  by (simp add: indexFacility_def Let_def fold_addToAmenityIndex_frame)

lemma fold_indexFacility_keys:
  "fst ` set (nameIndex (fold indexFacility fs s))
     = (\<Union>f \<in> set fs. set (tokenizeName (Facility.name f))) \<union> fst ` set (nameIndex s)
   \<and> (distinct (map fst (nameIndex s)) \<longrightarrow> distinct (map fst (nameIndex (fold indexFacility fs s))))"
proof (induction fs arbitrary: s)
  case Nil
  show ?case by simp
next
  case (Cons f fs)
  from Cons.IH [of "indexFacility f s"] indexFacility_keys [of f s]
  show ?case by auto
qed

lemma nameIndex_new_keys:
  "fst ` set (nameIndex (newFacilityService fs)) = (\<Union>f \<in> set fs. set (tokenizeName (Facility.name f)))"
  "distinct (map fst (nameIndex (newFacilityService fs)))"
  using fold_indexFacility_keys
    [of fs "\<lparr>FacilityService.facilities = fs, facilityIndex = [], nameIndex = [],
             amenityIndex = [], sets = (\<lambda>r. []), nextRef = 0\<rparr>"]
  by (simp_all add: newFacilityService_def buildIndexes_def)

lemma fold_counted:
  "fold (\<lambda>(k, r) (t, c). (g k r t, Suc c)) idx (s, n) = (fold (\<lambda>(k, r) t. g k r t) idx s, n + length idx)"
  by (induction idx arbitrary: s n) (auto simp: split_def)

lemma matchTokenCounted_eq:
  "matchTokenCounted m q (s, n) = (matchToken m q s, n + length (nameIndex s))"
proof -
  let ?s1 = "case map_of (nameIndex s) q of Some r \<Rightarrow> addAll r m s | None \<Rightarrow> s"
  have idx: "nameIndex ?s1 = nameIndex s"
    using sameBut_fields(3) [OF exact_sameBut] .
  show ?thesis
    unfolding matchTokenCounted_def matchToken_eq
    by (simp add: mapGet_def Let_def fold_counted idx)
qed

lemma fold_matchTokenCounted:
  "fold (matchTokenCounted m) qs (s, n)
     = (fold (matchToken m) qs s, n + length qs * length (nameIndex s))"
proof (induction qs arbitrary: s n)
  case Nil
  show ?case by simp
next
  case (Cons q qs)
  have "nameIndex (matchToken m q s) = nameIndex s"
    using sameBut_fields(3) [OF matchToken_sameBut] .
  then show ?case
    by (simp add: matchTokenCounted_eq Cons.IH)
qed

lemma searchByNameCounted_fst: "fst (searchByNameCounted lc s query) = searchByName lc s query"
  by (simp add: searchByNameCounted_def searchByName_def newSet_def Let_def fold_matchTokenCounted)

lemma searchByNameCounted_snd:
  "snd (searchByNameCounted lc s query)
     = (if query = [] \<or> trim query = [] then 0
        else length (filter (\<lambda>t. length t > 0) (splitWs (trim (toLowerCase query))))
             * length (nameIndex s))"
  by (simp add: searchByNameCounted_def newSet_def Let_def fold_matchTokenCounted)

lemma length_nameIndex_new:
  "length (nameIndex (newFacilityService fs)) = card (\<Union>f \<in> set fs. set (tokenizeName (Facility.name f)))"
proof -
  have "length (nameIndex (newFacilityService fs)) = length (map fst (nameIndex (newFacilityService fs)))"
    by simp
  also have "\<dots> = card (set (map fst (nameIndex (newFacilityService fs))))"
    by (rule distinct_card [symmetric]) (rule nameIndex_new_keys(2))
  also have "\<dots> = card (\<Union>f \<in> set fs. set (tokenizeName (Facility.name f)))"
    by (simp add: nameIndex_new_keys(1))
  finally show ?thesis .
qed

text \<open>
  C6: the cost of a prefix lookup is to depend on the length of the prefix and not on the
  number of distinct indexed tokens, with no scan of the vocabulary for a query token. The
  code does not meet this, against the \<^verbatim>\<open>O(k + m)\<close> of its own docstring. The counted lookup
  returns what the lookup returns, and for a query that is not blank the body of the loop
  over the name-token index runs once for every query token and every distinct token of the
  indexed names. For the query \<^verbatim>\<open>ci\<close>, one token of two letters, it runs three times on the
  service of the first example record and five times on the service of both.
\<close>

theorem C6_lookup_scans_every_indexed_token:
  "fst (searchByNameCounted lc (newFacilityService fs) query)
     = searchByName lc (newFacilityService fs) query
   \<and> snd (searchByNameCounted lc (newFacilityService fs) query)
     = (if query = [] \<or> trim query = [] then 0
        else length (filter (\<lambda>t. length t > 0) (splitWs (trim (toLowerCase query))))
             * card (\<Union>f \<in> set fs. set (tokenizeName (Facility.name f))))
   \<and> length ''ci'' = 2
   \<and> snd (searchByNameCounted codeUnitCompare (newFacilityService [facilityF1]) ''ci'') = 3
   \<and> snd (searchByNameCounted codeUnitCompare (newFacilityService [facilityF1, facilityF2]) ''ci'') = 5"
proof -
  have a: "snd (searchByNameCounted codeUnitCompare (newFacilityService [facilityF1]) ''ci'') = 3"
    by code_simp
  have b: "snd (searchByNameCounted codeUnitCompare (newFacilityService [facilityF1, facilityF2]) ''ci'') = 5"
    by code_simp
  have c: "length ''ci'' = 2" by simp
  have g: "snd (searchByNameCounted lc (newFacilityService fs) query)
     = (if query = [] \<or> trim query = [] then 0
        else length (filter (\<lambda>t. length t > 0) (splitWs (trim (toLowerCase query))))
             * card (\<Union>f \<in> set fs. set (tokenizeName (Facility.name f))))"
    by (simp only: searchByNameCounted_snd length_nameIndex_new)
  from searchByNameCounted_fst [of lc "newFacilityService fs" query] g c a b
  show ?thesis by blast
qed


section \<open>The order of the search results (C1)\<close>





lemma cc_facts:
  assumes "consistentComparator cmp S" and "a \<in> S" and "b \<in> S" and "c \<in> S"
  shows "cmp a a = 0"
    and "cmp a b = 0 \<Longrightarrow> cmp b a = 0"
    and "cmp a b = 0 \<Longrightarrow> cmp b c = 0 \<Longrightarrow> cmp a c = 0"
    and "cmp a b < 0 \<Longrightarrow> cmp b c < 0 \<Longrightarrow> cmp a c < 0"
    and "cmp a b > 0 \<Longrightarrow> cmp b c > 0 \<Longrightarrow> cmp a c > 0"
  using assms unfolding consistentComparator_def by blast+








lemma rankCompare_exact_inconsistent:
  "r \<in> S \<Longrightarrow> toLowerCase (FacilitySearchResult.name r) = q
   \<Longrightarrow> \<not> consistentComparator (rankCompare lc q) S"
proof
  assume r: "r \<in> S" and e: "toLowerCase (FacilitySearchResult.name r) = q"
    and cc: "consistentComparator (rankCompare lc q) S"
  from cc_facts(1) [OF cc r r r] e show False by (simp add: rankCompare_def)
qed











end
